theory Spec2Isabelle
  imports Main "HOL-Library.AList" "HOL-Library.Sublist" "HOL-Library.Word"
begin

section \<open>Data model\<close>

text \<open>
  The repository holds two revisions of the matcher: the newer one (the file with
  \<^verbatim>\<open>logEntry\<close>, \<^verbatim>\<open>ContentsProvider\<close> and \<^verbatim>\<open>AnyErr\<close>) and the older
  \<^verbatim>\<open>glager.go\<close> (with the exported \<^verbatim>\<open>LogEntry\<close>). Definitions of the newer
  revision carry the names of the source; definitions of the older revision carry the
  prefix \<open>legacy_\<close>.

  A value of Go's \<^verbatim>\<open>interface{}\<close> is either a string (the only dynamic type the
  code inspects, by the assertion \<^verbatim>\<open>kv[i].(string)\<close>) or a value of some other
  dynamic type, which stays a type parameter.
\<close>

datatype 'o govalue = GString string | GOther 'o

text \<open>
  \<^verbatim>\<open>lager.LogLevel\<close> is an integer type; a decoded record may carry any integer.

  Modelled from the spec: the four constants of \<^verbatim>\<open>lager.LogLevel\<close>, whose
  declaration is not among the sources (``ordinal 0=DEBUG..3=FATAL'').
\<close>

type_synonym LogLevel = int

definition DEBUG :: LogLevel where "DEBUG = 0"
definition INFO :: LogLevel where "INFO = 1"
definition ERROR :: LogLevel where "ERROR = 2"
definition FATAL :: LogLevel where "FATAL = 3"

text \<open>
  \<^verbatim>\<open>lager.LogFormat\<close>, under the names of its JSON fields. \<^verbatim>\<open>lager.Data\<close> is a Go
  map from strings to \<^verbatim>\<open>interface{}\<close>; it is an association list here, whose order
  stands for the order in which one \<^verbatim>\<open>range\<close> over the map happens to visit the
  keys. A Go map holds every key once: \<open>distinct (map fst d)\<close>.
\<close>

record 'o logEntry =
  timestamp :: string
  source :: string
  message :: string
  log_level :: LogLevel
  data :: "(string \<times> 'o govalue) list"

text \<open>
  Everything that ends a call other than by a normal return: the errors that
  \<^verbatim>\<open>Match\<close> returns as its second result, and the panics.
\<close>

datatype 'o failure =
    UsageError string
  | DecodeError string
  | MarshalError string
  | InvalidDataKey "'o govalue"
  | IndexOutOfRange
  | NilDereference
  | Uncomparable

definition is_panic :: "'o failure \<Rightarrow> bool" where
  "is_panic f = (case f of
       InvalidDataKey _ \<Rightarrow> True
     | IndexOutOfRange \<Rightarrow> True
     | NilDereference \<Rightarrow> True
     | Uncomparable \<Rightarrow> True
     | _ \<Rightarrow> False)"

text \<open>
  \<^verbatim>\<open>json.Marshal\<close> belongs to the standard library, not to the repository: it is a
  parameter \<open>marshal\<close> of the functions that call it, returning the library's error
  text (\<open>Inl\<close>) or the serialized bytes (\<open>Inr\<close>).
\<close>

type_synonym 'o marshaller = "'o govalue \<Rightarrow> string + string"

section \<open>Entry builder (newer revision)\<close>

text \<open>
  \<^verbatim>\<open>type option func(*logEntry)\<close>: an option mutates the entry under construction
  and may panic; it maps the entry to the mutated entry or to the panic.
\<close>

type_synonym 'o entry_option = "'o logEntry \<Rightarrow> 'o failure + 'o logEntry"

fun apply_options :: "'o entry_option list \<Rightarrow> 'o logEntry \<Rightarrow> 'o failure + 'o logEntry" where
  "apply_options [] entry = Inr entry"
| "apply_options (opt # options) entry =
     (case opt entry of
        Inl p \<Rightarrow> Inl p
      | Inr entry' \<Rightarrow> apply_options options entry')"

definition Entry :: "LogLevel \<Rightarrow> 'o entry_option list \<Rightarrow> 'o failure + 'o logEntry" where
  "Entry logLevel options =
     apply_options options
       \<lparr>timestamp = [], source = [], message = [], log_level = logLevel, data = []\<rparr>"

definition Message :: "string \<Rightarrow> 'o entry_option" where
  "Message msg = (\<lambda>e. Inr (e\<lparr>message := msg\<rparr>))"

definition Action :: "string \<Rightarrow> 'o entry_option" where
  "Action action = Message action"

definition Source :: "string \<Rightarrow> 'o entry_option" where
  "Source src = (\<lambda>e. Inr (e\<lparr>source := src\<rparr>))"

text \<open>
  The loop \<^verbatim>\<open>for i := 0; i < len(kv); i += 2\<close> of \<^verbatim>\<open>Data\<close>, on the arguments from
  position \<open>i\<close> on. A lone last argument would make \<^verbatim>\<open>kv[i+1]\<close> read out of range
  (after the key's type assertion).
\<close>

fun Data_loop :: "'o govalue list \<Rightarrow> 'o logEntry \<Rightarrow> 'o failure + 'o logEntry" where
  "Data_loop [] e = Inr e"
| "Data_loop [k] e =
     (case k of
        GString key \<Rightarrow> Inl IndexOutOfRange
      | GOther x \<Rightarrow> Inl (InvalidDataKey k))"
| "Data_loop (k # v # kv) e =
     (case k of
        GString key \<Rightarrow> Data_loop kv (e\<lparr>data := AList.update key v (data e)\<rparr>)
      | GOther x \<Rightarrow> Inl (InvalidDataKey k))"

definition pad :: "'o govalue list \<Rightarrow> 'o govalue list" where
  "pad kv = (if length kv mod 2 = 1 then kv @ [GString []] else kv)"

definition Data :: "'o govalue list \<Rightarrow> 'o entry_option" where
  "Data kv = (let kv' = pad kv in (\<lambda>e. Data_loop kv' e))"

definition Info :: "'o entry_option list \<Rightarrow> 'o failure + 'o logEntry" where
  "Info options = Entry INFO options"

definition Debug :: "'o entry_option list \<Rightarrow> 'o failure + 'o logEntry" where
  "Debug options = Entry DEBUG options"

text \<open>
  An \<^verbatim>\<open>error\<close> is \<open>None\<close> when it is nil and \<open>Some s\<close> when it is an error whose
  \<^verbatim>\<open>Error()\<close> method returns \<open>s\<close>.
\<close>

definition Error :: "string option \<Rightarrow> 'o entry_option list \<Rightarrow> 'o failure + 'o logEntry" where
  "Error err options =
     Entry ERROR
       (case err of
          None \<Rightarrow> options
        | Some s \<Rightarrow> options @ [Data [GString ''error'', GString s]])"

definition Fatal :: "string option \<Rightarrow> 'o entry_option list \<Rightarrow> 'o failure + 'o logEntry" where
  "Fatal err options =
     Entry FATAL
       (case err of
          None \<Rightarrow> options
        | Some s \<Rightarrow> options @ [Data [GString ''error'', GString s]])"

section \<open>Containment (newer revision)\<close>

text \<open>
  \<^verbatim>\<open>logEntryData.contains\<close>: the loop over the expected map. The error of marshalling
  the actual value is dropped by the source, which leaves \<^verbatim>\<open>actualJSON\<close> nil, the
  empty string.
\<close>

fun logEntryData_contains ::
  "'o marshaller \<Rightarrow> (string \<times> 'o govalue) list \<Rightarrow> (string \<times> 'o govalue) list
    \<Rightarrow> 'o failure + bool" where
  "logEntryData_contains marshal actual [] = Inr True"
| "logEntryData_contains marshal actual ((expectedKey, expectedVal) # expected) =
     (case map_of actual expectedKey of
        None \<Rightarrow> Inr False
      | Some actualVal \<Rightarrow>
          (let actualJSON = (case marshal actualVal of Inl _ \<Rightarrow> [] | Inr b \<Rightarrow> b) in
           case marshal expectedVal of
             Inl err \<Rightarrow> Inl (MarshalError err)
           | Inr expectedJSON \<Rightarrow>
               if actualJSON \<noteq> expectedJSON then Inr False
               else logEntryData_contains marshal actual expected))"

definition logEntry_contains ::
  "'o marshaller \<Rightarrow> 'o logEntry \<Rightarrow> 'o logEntry \<Rightarrow> 'o failure + bool" where
  "logEntry_contains marshal actual expected =
     (if source expected \<noteq> [] \<and> source actual \<noteq> source expected then Inr False
      else if message expected \<noteq> [] \<and> message actual \<noteq> message expected then Inr False
      else if log_level actual \<noteq> log_level expected then Inr False
      else logEntryData_contains marshal (data actual) (data expected))"

text \<open>
  \<^verbatim>\<open>logEntries.indexOf\<close> returns \<^verbatim>\<open>(i, true, nil)\<close>, \<^verbatim>\<open>(0, false, nil)\<close> or
  \<^verbatim>\<open>(0, false, err)\<close>: \<open>Inr (Some i)\<close>, \<open>Inr None\<close> and \<open>Inl err\<close>. The loop
  carries the index \<open>i\<close> of the head of the entries still to visit.
\<close>

fun indexOf_loop ::
  "'o marshaller \<Rightarrow> nat \<Rightarrow> 'o logEntry list \<Rightarrow> 'o logEntry \<Rightarrow> 'o failure + nat option" where
  "indexOf_loop marshal i [] entry = Inr None"
| "indexOf_loop marshal i (actual # entries) entry =
     (case logEntry_contains marshal actual entry of
        Inl err \<Rightarrow> Inl err
      | Inr containsEntry \<Rightarrow>
          if containsEntry then Inr (Some i)
          else indexOf_loop marshal (Suc i) entries entry)"

definition logEntries_indexOf ::
  "'o marshaller \<Rightarrow> 'o logEntry list \<Rightarrow> 'o logEntry \<Rightarrow> 'o failure + nat option" where
  "logEntries_indexOf marshal entries entry = indexOf_loop marshal 0 entries entry"

section \<open>The matcher (newer revision)\<close>

record 'o logMatcher =
  actual :: "'o logEntry list"
  expected :: "'o logEntry list"

definition ContainSequence :: "'o logEntry list \<Rightarrow> 'o logMatcher" where
  "ContainSequence expectedSequence = \<lparr>actual = [], expected = expectedSequence\<rparr>"

text \<open>
  \<^verbatim>\<open>encoding/json\<close> is outside the repository. The bytes of a source are represented
  by what successive \<^verbatim>\<open>Decode\<close> calls make of them: a list with one element per
  record, \<open>Inr entry\<close> for a record that decodes to \<open>entry\<close> and \<open>Inl err\<close> for a
  structurally malformed one, on which \<^verbatim>\<open>Decode\<close> returns \<open>err\<close>; after the last
  element \<^verbatim>\<open>Decode\<close> returns \<^verbatim>\<open>io.EOF\<close>.
\<close>

type_synonym 'o records = "(string + 'o logEntry) list"

text \<open>
  The value handed to \<^verbatim>\<open>Match\<close> as \<^verbatim>\<open>actual interface{}\<close>, by the interfaces its
  dynamic type implements: \<open>bufferProvider\<close> holds \<^verbatim>\<open>x.Buffer().Contents()\<close> when
  the type is a \<^verbatim>\<open>gbytes.BufferProvider\<close>, \<open>contentsProvider\<close> holds
  \<^verbatim>\<open>x.Contents()\<close> when it is a \<^verbatim>\<open>ContentsProvider\<close>, \<open>reader\<close> holds what is
  still unread when it is an \<^verbatim>\<open>io.Reader\<close>; \<open>formatted\<close> is the text
  \<^verbatim>\<open>format.Object(actual, 1)\<close> of gomega, which renders the type and the value.
\<close>

record 'o source_value =
  bufferProvider :: "'o records option"
  contentsProvider :: "'o records option"
  reader :: "'o records option"
  formatted :: string

text \<open>
  The decoding loop of \<^verbatim>\<open>Match\<close>: the decode error if one ended it, the entries
  appended to \<^verbatim>\<open>lm.actual\<close>, and the records not yet read. (The read-ahead of the
  decoder's buffer beyond a malformed record is not represented.)
\<close>

fun decode_loop ::
  "'o records \<Rightarrow> 'o logEntry list \<Rightarrow> string option \<times> 'o logEntry list \<times> 'o records" where
  "decode_loop [] acc = (None, acc, [])"
| "decode_loop (Inl err # rest) acc = (Some err, acc, rest)"
| "decode_loop (Inr entry # rest) acc = decode_loop rest (acc @ [entry])"

text \<open>
  The loop over \<^verbatim>\<open>lm.expected\<close>; \<^verbatim>\<open>actualEntries[i+1:]\<close> is \<open>drop (i + 1)\<close>.
  \<^verbatim>\<open>(b, nil)\<close> is \<open>Inr b\<close> and \<^verbatim>\<open>(false, err)\<close> is \<open>Inl err\<close>.
\<close>

fun match_loop ::
  "'o marshaller \<Rightarrow> 'o logEntry list \<Rightarrow> 'o logEntry list \<Rightarrow> 'o failure + bool" where
  "match_loop marshal [] actualEntries = Inr True"
| "match_loop marshal (e # es) actualEntries =
     (case logEntries_indexOf marshal actualEntries e of
        Inl err \<Rightarrow> Inl err
      | Inr None \<Rightarrow> Inr False
      | Inr (Some i) \<Rightarrow> match_loop marshal es (drop (i + 1) actualEntries))"

text \<open>\<^verbatim>\<open>Match\<close> from the creation of the decoder on, reading the records \<open>rs\<close>.\<close>

definition match_records ::
  "'o marshaller \<Rightarrow> 'o logMatcher \<Rightarrow> 'o records
    \<Rightarrow> ('o failure + bool) \<times> 'o logMatcher \<times> 'o records" where
  "match_records marshal lm rs =
     (case decode_loop rs [] of
        (Some err, acc, rest) \<Rightarrow> (Inl (DecodeError err), lm\<lparr>actual := acc\<rparr>, rest)
      | (None, acc, rest) \<Rightarrow>
          (match_loop marshal (expected lm) acc, lm\<lparr>actual := acc\<rparr>, rest))"

definition usage_text :: string where
  "usage_text =
     ''ContainSequence must be passed an io.Reader, glager.ContentsProvider, or gbytes.BufferProvider. Got:''
       @ [CHR 0x0A]"

text \<open>
  \<^verbatim>\<open>logMatcher.Match\<close>: the result, the matcher afterwards and the value afterwards.
  The type switch takes the first case that applies; only the \<^verbatim>\<open>io.Reader\<close> case
  reads from the value itself, the other two read a fresh reader over a copy of the
  contents.
\<close>

definition Match ::
  "'o marshaller \<Rightarrow> 'o logMatcher \<Rightarrow> 'o source_value
    \<Rightarrow> ('o failure + bool) \<times> 'o logMatcher \<times> 'o source_value" where
  "Match marshal lm x =
     (case bufferProvider x of
        Some contents \<Rightarrow>
          (case match_records marshal lm contents of (r, lm', rest) \<Rightarrow> (r, lm', x))
      | None \<Rightarrow>
          (case contentsProvider x of
             Some contents \<Rightarrow>
               (case match_records marshal lm contents of (r, lm', rest) \<Rightarrow> (r, lm', x))
           | None \<Rightarrow>
               (case reader x of
                  Some unread \<Rightarrow>
                    (case match_records marshal lm unread of
                       (r, lm', rest) \<Rightarrow> (r, lm', x\<lparr>reader := Some rest\<rparr>))
                | None \<Rightarrow> (Inl (UsageError (usage_text @ formatted x)), lm, x))))"

text \<open>
  Go ranges over a map in an order that may change from one \<^verbatim>\<open>range\<close> statement to
  the next, so each containment test may visit the keys of the expected data in an
  order of its own. The functions above take the order of the list in every test. The
  functions below are the same loops with the order of each range made explicit:
  \<open>ord j i d\<close> is the order in which the test of the \<open>j\<close>-th expected entry against the
  \<open>i\<close>-th record of its scan visits the pairs of the expected data \<open>d\<close>.
\<close>

type_synonym 'o range_order =
  "nat \<Rightarrow> nat \<Rightarrow> (string \<times> 'o govalue) list \<Rightarrow> (string \<times> 'o govalue) list"

fun indexOf_loop_ord ::
  "'o marshaller \<Rightarrow> (nat \<Rightarrow> (string \<times> 'o govalue) list \<Rightarrow> (string \<times> 'o govalue) list)
    \<Rightarrow> nat \<Rightarrow> 'o logEntry list \<Rightarrow> 'o logEntry \<Rightarrow> 'o failure + nat option" where
  "indexOf_loop_ord marshal ordj i [] entry = Inr None"
| "indexOf_loop_ord marshal ordj i (a # entries) entry =
     (case logEntry_contains marshal a (entry\<lparr>data := ordj i (data entry)\<rparr>) of
        Inl err \<Rightarrow> Inl err
      | Inr containsEntry \<Rightarrow>
          if containsEntry then Inr (Some i)
          else indexOf_loop_ord marshal ordj (Suc i) entries entry)"

fun match_loop_ord ::
  "'o marshaller \<Rightarrow> 'o range_order \<Rightarrow> nat \<Rightarrow> 'o logEntry list \<Rightarrow> 'o logEntry list
    \<Rightarrow> 'o failure + bool" where
  "match_loop_ord marshal ord j [] actualEntries = Inr True"
| "match_loop_ord marshal ord j (e # es) actualEntries =
     (case indexOf_loop_ord marshal (ord j) 0 actualEntries e of
        Inl err \<Rightarrow> Inl err
      | Inr None \<Rightarrow> Inr False
      | Inr (Some i) \<Rightarrow> match_loop_ord marshal ord (Suc j) es (drop (i + 1) actualEntries))"

definition match_records_ord ::
  "'o marshaller \<Rightarrow> 'o range_order \<Rightarrow> 'o logMatcher \<Rightarrow> 'o records
    \<Rightarrow> ('o failure + bool) \<times> 'o logMatcher \<times> 'o records" where
  "match_records_ord marshal ord lm rs =
     (case decode_loop rs [] of
        (Some err, acc, rest) \<Rightarrow> (Inl (DecodeError err), lm\<lparr>actual := acc\<rparr>, rest)
      | (None, acc, rest) \<Rightarrow>
          (match_loop_ord marshal ord 0 (expected lm) acc, lm\<lparr>actual := acc\<rparr>, rest))"

definition Match_ord ::
  "'o marshaller \<Rightarrow> 'o range_order \<Rightarrow> 'o logMatcher \<Rightarrow> 'o source_value
    \<Rightarrow> ('o failure + bool) \<times> 'o logMatcher \<times> 'o source_value" where
  "Match_ord marshal ord lm x =
     (case bufferProvider x of
        Some contents \<Rightarrow>
          (case match_records_ord marshal ord lm contents of (r, lm', rest) \<Rightarrow> (r, lm', x))
      | None \<Rightarrow>
          (case contentsProvider x of
             Some contents \<Rightarrow>
               (case match_records_ord marshal ord lm contents of (r, lm', rest) \<Rightarrow> (r, lm', x))
           | None \<Rightarrow>
               (case reader x of
                  Some unread \<Rightarrow>
                    (case match_records_ord marshal ord lm unread of
                       (r, lm', rest) \<Rightarrow> (r, lm', x\<lparr>reader := Some rest\<rparr>))
                | None \<Rightarrow> (Inl (UsageError (usage_text @ formatted x)), lm, x))))"

text \<open>
  The order of the list itself, the reverse order, and what makes an order a
  rearrangement of the pairs.
\<close>

definition list_order :: "'o range_order" where
  "list_order j i d = d"

definition reversed_order :: "'o range_order" where
  "reversed_order j i d = rev d"

definition reordering :: "'o range_order \<Rightarrow> bool" where
  "reordering ord = (\<forall>j i d. set (ord j i d) = set d \<and> length (ord j i d) = length d)"

text \<open>
  The boolean that \<^verbatim>\<open>Match\<close> returns: every return with an error returns
  \<^verbatim>\<open>false\<close> with it.
\<close>

definition success :: "'o failure + bool \<Rightarrow> bool" where
  "success r = (case r of Inl err \<Rightarrow> False | Inr b \<Rightarrow> b)"

section \<open>The older revision (glager.go)\<close>

text \<open>
  \<^verbatim>\<open>Entry\<close>, \<^verbatim>\<open>Info\<close>, \<^verbatim>\<open>Debug\<close>, \<^verbatim>\<open>Message\<close>, \<^verbatim>\<open>Action\<close> and
  \<^verbatim>\<open>Source\<close> read the same in both revisions. The older \<^verbatim>\<open>Data\<close> takes
  strings only, so no key can be of another type.
\<close>

fun legacy_Data_loop :: "string list \<Rightarrow> 'o logEntry \<Rightarrow> 'o failure + 'o logEntry" where
  "legacy_Data_loop [] e = Inr e"
| "legacy_Data_loop [k] e = Inl IndexOutOfRange"
| "legacy_Data_loop (k # v # kv) e =
     legacy_Data_loop kv (e\<lparr>data := AList.update k (GString v) (data e)\<rparr>)"

definition legacy_pad :: "string list \<Rightarrow> string list" where
  "legacy_pad kv = (if length kv mod 2 = 1 then kv @ [[]] else kv)"

definition legacy_Data :: "string list \<Rightarrow> 'o entry_option" where
  "legacy_Data kv = (let kv' = legacy_pad kv in (\<lambda>e. legacy_Data_loop kv' e))"

text \<open>
  The older \<^verbatim>\<open>Error\<close> evaluates \<^verbatim>\<open>err.Error()\<close> before anything else, whatever
  \<^verbatim>\<open>err\<close> is: on a nil error this is a nil dereference. The older \<^verbatim>\<open>Fatal\<close>
  takes no error.
\<close>

definition legacy_Error :: "string option \<Rightarrow> 'o entry_option list \<Rightarrow> 'o failure + 'o logEntry" where
  "legacy_Error err options =
     (case err of
        None \<Rightarrow> Inl NilDereference
      | Some s \<Rightarrow> Entry ERROR (options @ [legacy_Data [''error'', s]]))"

definition legacy_Fatal :: "'o entry_option list \<Rightarrow> 'o failure + 'o logEntry" where
  "legacy_Fatal options = Entry FATAL options"

text \<open>
  Go's \<^verbatim>\<open>v != actualValue\<close> on two interface values. Two strings compare by their
  text; a string and a value of another dynamic type differ; for two values that are
  not strings the comparison is the parameter \<open>ne\<close>, which is \<open>None\<close> when the
  comparison panics (both have the same uncomparable dynamic type, a slice or a map).
\<close>

type_synonym 'o comparison = "'o \<Rightarrow> 'o \<Rightarrow> bool option"

fun iface_ne :: "'o comparison \<Rightarrow> 'o govalue \<Rightarrow> 'o govalue \<Rightarrow> 'o failure + bool" where
  "iface_ne ne (GString a) (GString b) = Inr (a \<noteq> b)"
| "iface_ne ne (GString a) (GOther y) = Inr True"
| "iface_ne ne (GOther x) (GString b) = Inr True"
| "iface_ne ne (GOther x) (GOther y) =
     (case ne x y of None \<Rightarrow> Inl Uncomparable | Some differ \<Rightarrow> Inr differ)"

text \<open>\<^verbatim>\<open>LogEntryData.contains\<close> of the older revision.\<close>

fun legacy_data_contains ::
  "'o comparison \<Rightarrow> (string \<times> 'o govalue) list \<Rightarrow> (string \<times> 'o govalue) list
    \<Rightarrow> 'o failure + bool" where
  "legacy_data_contains ne actualData [] = Inr True"
| "legacy_data_contains ne actualData ((k, v) # expectedData) =
     (case map_of actualData k of
        None \<Rightarrow> Inr False
      | Some actualValue \<Rightarrow>
          (case iface_ne ne v actualValue of
             Inl p \<Rightarrow> Inl p
           | Inr differ \<Rightarrow>
               if differ then Inr False else legacy_data_contains ne actualData expectedData))"

text \<open>\<^verbatim>\<open>LogEntry.contains\<close> of the older revision.\<close>

definition legacy_contains ::
  "'o comparison \<Rightarrow> 'o logEntry \<Rightarrow> 'o logEntry \<Rightarrow> 'o failure + bool" where
  "legacy_contains ne actualEntry expectedEntry =
     (if source expectedEntry \<noteq> [] \<and> source actualEntry \<noteq> source expectedEntry then Inr False
      else if message expectedEntry \<noteq> [] \<and> message actualEntry \<noteq> message expectedEntry then Inr False
      else if log_level actualEntry \<noteq> log_level expectedEntry then Inr False
      else if timestamp expectedEntry \<noteq> [] \<and> timestamp actualEntry \<noteq> timestamp expectedEntry then Inr False
      else legacy_data_contains ne (data actualEntry) (data expectedEntry))"

fun legacy_indexOf_loop ::
  "'o comparison \<Rightarrow> nat \<Rightarrow> 'o logEntry list \<Rightarrow> 'o logEntry \<Rightarrow> 'o failure + nat option" where
  "legacy_indexOf_loop ne i [] entry = Inr None"
| "legacy_indexOf_loop ne i (actualEntry # entries) entry =
     (case legacy_contains ne actualEntry entry of
        Inl p \<Rightarrow> Inl p
      | Inr c \<Rightarrow> if c then Inr (Some i) else legacy_indexOf_loop ne (Suc i) entries entry)"

definition legacy_indexOf ::
  "'o comparison \<Rightarrow> 'o logEntry list \<Rightarrow> 'o logEntry \<Rightarrow> 'o failure + nat option" where
  "legacy_indexOf ne entries entry = legacy_indexOf_loop ne 0 entries entry"

fun legacy_match_loop ::
  "'o comparison \<Rightarrow> 'o logEntry list \<Rightarrow> 'o logEntry list \<Rightarrow> 'o failure + bool" where
  "legacy_match_loop ne [] actualEntries = Inr True"
| "legacy_match_loop ne (e # es) actualEntries =
     (case legacy_indexOf ne actualEntries e of
        Inl p \<Rightarrow> Inl p
      | Inr None \<Rightarrow> Inr False
      | Inr (Some i) \<Rightarrow> legacy_match_loop ne es (drop (i + 1) actualEntries))"

definition legacy_usage_text :: string where
  "legacy_usage_text = ''Contains must be passed an io.Reader. Got:'' @ [CHR 0x0A]"

text \<open>The older \<^verbatim>\<open>logMatcher.Match\<close> accepts an \<^verbatim>\<open>io.Reader\<close> and nothing else.\<close>

definition legacy_Match ::
  "'o comparison \<Rightarrow> 'o logMatcher \<Rightarrow> 'o source_value
    \<Rightarrow> ('o failure + bool) \<times> 'o logMatcher \<times> 'o source_value" where
  "legacy_Match ne lm x =
     (case reader x of
        None \<Rightarrow> (Inl (UsageError (legacy_usage_text @ formatted x)), lm, x)
      | Some unread \<Rightarrow>
          (case decode_loop unread [] of
             (Some err, acc, rest) \<Rightarrow>
               (Inl (DecodeError err), lm\<lparr>actual := acc\<rparr>, x\<lparr>reader := Some rest\<rparr>)
           | (None, acc, rest) \<Rightarrow>
               (legacy_match_loop ne (expected lm) acc, lm\<lparr>actual := acc\<rparr>,
                x\<lparr>reader := Some rest\<rparr>)))"

section \<open>The logger\<close>

text \<open>
  \<^verbatim>\<open>fmt.Sprintf("%d", sid)\<close> for an unsigned integer: its decimal digits, the most
  significant first, without leading zeros.
\<close>

definition digit :: "nat \<Rightarrow> char" where
  "digit d = ''0123456789'' ! d"

fun decimal :: "nat \<Rightarrow> string" where
  "decimal n = (if n < 10 then [digit n] else decimal (n div 10) @ [digit (n mod 10)])"

text \<open>
  The struct \<^verbatim>\<open>logger\<close>; \<^verbatim>\<open>nextSession\<close> is a \<^verbatim>\<open>uint32\<close>. Sinks are opaque
  (\<open>'s\<close>), and \<open>sinks\<close> holds the elements of the slice a logger sees: that the
  slices of a parent and its children may share one backing array is not represented.
  The field \<^verbatim>\<open>data\<close> is \<open>baseline\<close> here.
\<close>

record ('o, 's) logger =
  component :: string
  task :: string
  sinks :: "'s list"
  sessionID :: string
  nextSession :: "32 word"
  baseline :: "(string \<times> 'o govalue) list"

definition NewLogger :: "string \<Rightarrow> ('o, 's) logger" where
  "NewLogger c =
     \<lparr>component = c, task = c, sinks = [], sessionID = [], nextSession = 0, baseline = []\<rparr>"

text \<open>Copying a map key by key into another: \<^verbatim>\<open>for k, v := range m { data[k] = v }\<close>.\<close>

definition copy_into ::
  "(string \<times> 'o govalue) list \<Rightarrow> (string \<times> 'o govalue) list \<Rightarrow> (string \<times> 'o govalue) list" where
  "copy_into d m = foldl (\<lambda>acc kv. AList.update (fst kv) (snd kv) acc) d m"

definition baseData ::
  "('o, 's) logger \<Rightarrow> (string \<times> 'o govalue) list list \<Rightarrow> (string \<times> 'o govalue) list" where
  "baseData l givenData =
     (let d = foldl copy_into (copy_into [] (baseline l)) givenData in
      if sessionID l \<noteq> [] then AList.update ''session'' (GString (sessionID l)) d else d)"

text \<open>
  \<^verbatim>\<open>atomic.AddUint32(&l.nextSession, 1)\<close> adds one modulo \<open>2 ^ 32\<close>, stores the sum
  and returns it. \<^verbatim>\<open>Session\<close> returns the child; the receiver afterwards is the
  second component.
\<close>

definition session_segment :: "('o, 's) logger \<Rightarrow> 32 word" where
  "session_segment l = nextSession l + 1"

definition Session ::
  "('o, 's) logger \<Rightarrow> string \<Rightarrow> (string \<times> 'o govalue) list list
    \<Rightarrow> ('o, 's) logger \<times> ('o, 's) logger" where
  "Session l t givenData =
     (let sid = session_segment l;
          sessionIDstr =
            (if sessionID l \<noteq> [] then sessionID l @ ''.'' @ decimal (unat sid)
             else decimal (unat sid))
      in (\<lparr>component = component l, task = task l @ ''.'' @ t, sinks = sinks l,
           sessionID = sessionIDstr, nextSession = 0, baseline = baseData l givenData\<rparr>,
          l\<lparr>nextSession := sid\<rparr>))"

definition WithData :: "('o, 's) logger \<Rightarrow> (string \<times> 'o govalue) list \<Rightarrow> ('o, 's) logger" where
  "WithData l d =
     \<lparr>component = component l, task = task l, sinks = sinks l, sessionID = sessionID l,
      nextSession = 0, baseline = baseData l [d]\<rparr>"

definition RegisterSink :: "('o, 's) logger \<Rightarrow> 's \<Rightarrow> ('o, 's) logger" where
  "RegisterSink l sink = l\<lparr>sinks := sinks l @ [sink]\<rparr>"

text \<open>
  The methods of a logger that write to the receiver's fields, and what a sequence of
  such calls leaves of the receiver. (\<^verbatim>\<open>Debug\<close>, \<^verbatim>\<open>Info\<close>, \<^verbatim>\<open>Error\<close>,
  \<^verbatim>\<open>Fatal\<close>, \<^verbatim>\<open>WithData\<close> and \<^verbatim>\<open>SessionName\<close> assign to no field of it.)
\<close>

datatype ('o, 's) logger_call =
    CallRegisterSink 's
  | CallSession string "(string \<times> 'o govalue) list list"
  | CallOther

fun receiver_after :: "('o, 's) logger \<Rightarrow> ('o, 's) logger_call \<Rightarrow> ('o, 's) logger" where
  "receiver_after l (CallRegisterSink sink) = RegisterSink l sink"
| "receiver_after l (CallSession t givenData) = snd (Session l t givenData)"
| "receiver_after l CallOther = l"

text \<open>
  The children of successive \<^verbatim>\<open>Session\<close> calls on one parent, in the order of the
  calls (the order in which the atomic additions take effect), and the parent
  afterwards.
\<close>

fun Sessions ::
  "('o, 's) logger \<Rightarrow> (string \<times> (string \<times> 'o govalue) list list) list
    \<Rightarrow> ('o, 's) logger list \<times> ('o, 's) logger" where
  "Sessions l [] = ([], l)"
| "Sessions l ((t, givenData) # calls) =
     (case Session l t givenData of
        (child, l') \<Rightarrow> (case Sessions l' calls of (children, l'') \<Rightarrow> (child # children, l'')))"

text \<open>What \<^verbatim>\<open>Session\<close> puts before the new segment of the session identifier.\<close>

definition session_prefix :: "('o, 's) logger \<Rightarrow> string" where
  "session_prefix l = (if sessionID l \<noteq> [] then sessionID l @ ''.'' else [])"

section \<open>Sample values\<close>

text \<open>
  A few dynamic types for running the definitions on concrete inputs, with what
  \<^verbatim>\<open>json.Marshal\<close> returns on them: a number prints in decimal, a boolean as
  \<^verbatim>\<open>true\<close> or \<^verbatim>\<open>false\<close>, a string between double quotes (the samples hold no
  character that the library would escape), a slice of numbers as a JSON array, and a
  channel is refused with the library's error for an unsupported type.
\<close>

datatype sample = Number nat | Boolean bool | Channel | Slice "nat list"

fun joined :: "string list \<Rightarrow> string" where
  "joined [] = []"
| "joined [s] = s"
| "joined (s # t # ss) = s @ '','' @ joined (t # ss)"

fun sample_marshal :: "sample marshaller" where
  "sample_marshal (GString s) = Inr ([CHR 0x22] @ s @ [CHR 0x22])"
| "sample_marshal (GOther (Number n)) = Inr (decimal n)"
| "sample_marshal (GOther (Boolean b)) = Inr (if b then ''true'' else ''false'')"
| "sample_marshal (GOther Channel) = Inl ''json: unsupported type: chan int''"
| "sample_marshal (GOther (Slice ns)) = Inr (''['' @ joined (map decimal ns) @ '']'')"

text \<open>
  Go's comparison of two sample values: numbers, booleans and channels are comparable,
  and comparing two slices panics.
\<close>

fun sample_ne :: "sample comparison" where
  "sample_ne (Slice a) (Slice b) = None"
| "sample_ne x y = Some (x \<noteq> y)"

text \<open>
  The records that the repository's test writes to its log: an info, a debug and an
  error entry of the logger \<^verbatim>\<open>logger\<close>.
\<close>

definition sample_info :: "sample logEntry" where
  "sample_info =
     \<lparr>timestamp = ''1404.000000001'', source = ''logger'', message = ''logger.action'',
      log_level = INFO,
      data = [(''event'', GString ''starting''), (''task'', GString ''my-task'')]\<rparr>"

definition sample_debug :: "sample logEntry" where
  "sample_debug =
     \<lparr>timestamp = ''1404.000000002'', source = ''logger'', message = ''logger.action'',
      log_level = DEBUG,
      data = [(''event'', GString ''debugging''), (''task'', GString ''my-task'')]\<rparr>"

definition sample_error :: "sample logEntry" where
  "sample_error =
     \<lparr>timestamp = ''1404.000000003'', source = ''logger'', message = ''logger.action'',
      log_level = ERROR,
      data = [(''event'', GString ''failed''), (''task'', GString ''my-task''),
              (''error'', GString ''some-error'')]\<rparr>"

text \<open>An expectation of an info entry with one data constraint.\<close>

definition expect_starting :: "sample logEntry" where
  "expect_starting =
     \<lparr>timestamp = [], source = [], message = [], log_level = INFO,
      data = [(''event'', GString ''starting'')]\<rparr>"

text \<open>A test sink (a \<^verbatim>\<open>gbytes.BufferProvider\<close> that is neither a
  \<^verbatim>\<open>ContentsProvider\<close> nor an \<^verbatim>\<open>io.Reader\<close>) holding the three records, a reader
  over the info record followed by a malformed record, and two more expectations: of the error
  entry, and of an info entry whose data value is a channel.\<close>

definition sample_sink :: "sample source_value" where
  "sample_sink =
     \<lparr>bufferProvider = Some [Inr sample_info, Inr sample_debug, Inr sample_error],
      contentsProvider = None, reader = None, formatted = ''<*lagertest.TestSink>''\<rparr>"

definition sample_broken :: "sample source_value" where
  "sample_broken =
     \<lparr>bufferProvider = None, contentsProvider = None,
      reader = Some [Inr sample_info, Inl ''invalid character 'x' looking for beginning of value'',
                     Inr sample_error],
      formatted = ''<*bufio.Reader>''\<rparr>"

text \<open>A value that implements none of the three interfaces.\<close>

definition sample_number :: "sample source_value" where
  "sample_number =
     \<lparr>bufferProvider = None, contentsProvider = None, reader = None, formatted = ''<int>: 42''\<rparr>"

text \<open>
  A reader over one record whose data holds a slice, and an expectation (written as a
  literal of the exported \<^verbatim>\<open>LogEntry\<close>) whose data holds another slice.
\<close>

definition sample_tagged :: "sample source_value" where
  "sample_tagged =
     \<lparr>bufferProvider = None, contentsProvider = None,
      reader = Some [Inr (sample_info\<lparr>data := [(''tags'', GOther (Slice [1]))]\<rparr>)],
      formatted = ''<*bufio.Reader>''\<rparr>"

definition expect_tagged :: "sample logEntry" where
  "expect_tagged =
     \<lparr>timestamp = [], source = [], message = [], log_level = INFO,
      data = [(''tags'', GOther (Slice [2]))]\<rparr>"

text \<open>
  A reader over the three records, and an expectation with a channel and a string
  that no record has.
\<close>

definition sample_log :: "sample source_value" where
  "sample_log =
     \<lparr>bufferProvider = None, contentsProvider = None,
      reader = Some [Inr sample_info, Inr sample_debug, Inr sample_error],
      formatted = ''<*bufio.Reader>''\<rparr>"

definition expect_mixed :: "sample logEntry" where
  "expect_mixed =
     \<lparr>timestamp = [], source = [], message = [], log_level = INFO,
      data = [(''event'', GOther Channel), (''task'', GString ''other'')]\<rparr>"

definition expect_failed :: "sample logEntry" where
  "expect_failed =
     \<lparr>timestamp = [], source = [], message = [], log_level = ERROR,
      data = [(''event'', GString ''failed''), (''error'', GString ''some-error'')]\<rparr>"

definition expect_channel :: "sample logEntry" where
  "expect_channel =
     \<lparr>timestamp = [], source = [], message = [], log_level = INFO,
      data = [(''event'', GOther Channel)]\<rparr>"

section \<open>Notions of the specification\<close>

text \<open>
  ``The two values are equal after normalizing through the same serialization form'':
  the expected value serializes, and to the same bytes as the actual value (whose
  serialization the code takes to be empty should it fail).
\<close>

definition same_serialization :: "'o marshaller \<Rightarrow> 'o govalue \<Rightarrow> 'o govalue \<Rightarrow> bool" where
  "same_serialization marshal actualVal expectedVal =
     (case marshal expectedVal of
        Inl err \<Rightarrow> False
      | Inr expectedJSON \<Rightarrow>
          (case marshal actualVal of Inl _ \<Rightarrow> [] | Inr b \<Rightarrow> b) = expectedJSON)"

text \<open>Per-entry containment holds: the test returns true and no error.\<close>

definition contained :: "'o marshaller \<Rightarrow> 'o logEntry \<Rightarrow> 'o logEntry \<Rightarrow> bool" where
  "contained marshal a e = (logEntry_contains marshal a e = Inr True)"

text \<open>Every data value of an expectation can be serialized.\<close>

definition serializable :: "'o marshaller \<Rightarrow> 'o logEntry \<Rightarrow> bool" where
  "serializable marshal e =
     list_all (\<lambda>kv. case marshal (snd kv) of Inl err \<Rightarrow> False | Inr b \<Rightarrow> True) (data e)"

text \<open>
  The containment algorithm in the words of the specification. Step 2a and 2b: the
  lowest index at or after the cursor \<open>c\<close> whose record satisfies \<open>P\<close>.
\<close>

function first_from :: "('a \<Rightarrow> bool) \<Rightarrow> 'a list \<Rightarrow> nat \<Rightarrow> nat option" where
  "first_from P as c =
     (if length as \<le> c then None
      else if P (as ! c) then Some c
      else first_from P as (c + 1))"
  by pat_completeness auto
termination
  by (relation "measure (\<lambda>(P, as, c). length as - c)") auto

text \<open>
  Steps 1 to 3: the cursor starts at \<open>c\<close>, moves to \<open>i + 1\<close> after a match at \<open>i\<close>,
  and the match fails when an expected entry finds no record.
\<close>

fun cursor_match :: "('a \<Rightarrow> 'b \<Rightarrow> bool) \<Rightarrow> 'a list \<Rightarrow> nat \<Rightarrow> 'b list \<Rightarrow> bool" where
  "cursor_match P as c [] = True"
| "cursor_match P as c (e # es) =
     (case first_from (\<lambda>a. P a e) as c of
        None \<Rightarrow> False
      | Some i \<Rightarrow> cursor_match P as (i + 1) es)"

text \<open>
  The expected entries \<open>es\<close> occur, in their order, as a subsequence of the records
  \<open>as\<close> from position \<open>c\<close> on: there are strictly increasing positions, one for each
  expected entry, whose records contain the entries.
\<close>

definition occurs_in_order_from ::
  "('a \<Rightarrow> 'b \<Rightarrow> bool) \<Rightarrow> 'a list \<Rightarrow> nat \<Rightarrow> 'b list \<Rightarrow> bool" where
  "occurs_in_order_from P as c es =
     (\<exists>ixs. length ixs = length es \<and> sorted_wrt (<) ixs \<and>
        (\<forall>j < length es. c \<le> ixs ! j \<and> ixs ! j < length as \<and> P (as ! (ixs ! j)) (es ! j)))"

text \<open>
  The same notions for the older revision: containment holds, and no comparison of a
  data value of the expectation \<open>e\<close> with the value that a record of \<open>as\<close> has
  at the same key panics. The second notion names every comparison that
  \<^verbatim>\<open>LogEntryData.contains\<close> can make, in whatever order it ranges over the
  expected data.
\<close>

definition legacy_contained :: "'o comparison \<Rightarrow> 'o logEntry \<Rightarrow> 'o logEntry \<Rightarrow> bool" where
  "legacy_contained ne a e = (legacy_contains ne a e = Inr True)"

definition comparable_data ::
  "'o comparison \<Rightarrow> (string \<times> 'o govalue) list \<Rightarrow> (string \<times> 'o govalue) list \<Rightarrow> bool" where
  "comparable_data ne actualData expectedData =
     list_all (\<lambda>kv. case map_of actualData (fst kv) of
                       None \<Rightarrow> True
                     | Some actualValue \<Rightarrow>
                         (case iface_ne ne (snd kv) actualValue of
                            Inl p \<Rightarrow> False
                          | Inr differ \<Rightarrow> True)) expectedData"

definition legacy_no_panic :: "'o comparison \<Rightarrow> 'o logEntry list \<Rightarrow> 'o logEntry \<Rightarrow> bool" where
  "legacy_no_panic ne as e = list_all (\<lambda>a. comparable_data ne (data a) (data e)) as"

text \<open>
  What Go's comparison guarantees of the parameter \<open>ne\<close>: it panics only on two values
  of one uncomparable type, and a value of such a type is never found equal to any
  value.
\<close>

definition go_comparison :: "'o comparison \<Rightarrow> bool" where
  "go_comparison ne = (\<forall>x y. ne x y = None \<longrightarrow> (\<forall>z. ne x z \<noteq> Some False))"

text \<open>An argument of \<^verbatim>\<open>Data\<close> is a string: the assertion \<^verbatim>\<open>kv[i].(string)\<close> holds.\<close>

fun is_string :: "'o govalue \<Rightarrow> bool" where
  "is_string (GString s) = True"
| "is_string (GOther x) = False"

text \<open>
  The consecutive key/value pairs of an argument list, when its length is even and
  every argument at a key position is a string.
\<close>

fun key_values :: "'o govalue list \<Rightarrow> (string \<times> 'o govalue) list option" where
  "key_values [] = Some []"
| "key_values [k] = None"
| "key_values (k # v # kv) =
     (case k of
        GString key \<Rightarrow> map_option (\<lambda>kvs. (key, v) # kvs) (key_values kv)
      | GOther x \<Rightarrow> None)"

text \<open>The consecutive key/value pairs of the arguments of the older \<^verbatim>\<open>Data\<close>.\<close>

fun legacy_key_values :: "string list \<Rightarrow> (string \<times> 'o govalue) list" where
  "legacy_key_values (k # v # kv) = (k, GString v) # legacy_key_values kv"
| "legacy_key_values kv = []"

text \<open>The records that the type switch of \<^verbatim>\<open>Match\<close> reads, if it accepts the value.\<close>

definition accepted_records :: "'o source_value \<Rightarrow> 'o records option" where
  "accepted_records x =
     (case bufferProvider x of
        Some contents \<Rightarrow> Some contents
      | None \<Rightarrow>
          (case contentsProvider x of
             Some contents \<Rightarrow> Some contents
           | None \<Rightarrow> reader x))"

section \<open>Per-entry containment\<close>

lemma data_contains_True_iff:
  "logEntryData_contains marshal ad ed = Inr True \<longleftrightarrow>
     (\<forall>p \<in> set ed. \<exists>av. map_of ad (fst p) = Some av \<and> same_serialization marshal av (snd p))"
proof (induction ed)
  case Nil
  then show ?case by simp
next
  case (Cons p ed)
  obtain k v where p: "p = (k, v)" by (cases p)
  show ?case
  proof (cases "map_of ad k")
    case None
    then show ?thesis by (simp add: p)
  next
    case (Some av)
    show ?thesis
    proof (cases "marshal v")
      case (Inl err)
      then show ?thesis by (simp add: p Some same_serialization_def)
    next
      case (Inr j)
      then show ?thesis using Cons.IH by (simp add: p Some same_serialization_def Let_def)
    qed
  qed
qed

lemma data_contains_map_of:
  assumes "distinct (map fst ed)"
  shows "logEntryData_contains marshal ad ed = Inr True \<longleftrightarrow>
     (\<forall>k v. map_of ed k = Some v \<longrightarrow>
        (\<exists>av. map_of ad k = Some av \<and> same_serialization marshal av v))"
proof -
  have "(\<forall>p \<in> set ed. \<exists>av. map_of ad (fst p) = Some av \<and> same_serialization marshal av (snd p))
      = (\<forall>k v. (k, v) \<in> set ed \<longrightarrow>
        (\<exists>av. map_of ad k = Some av \<and> same_serialization marshal av v))"
    by (metis fst_conv snd_conv surjective_pairing)
  then show ?thesis
    using assms by (simp add: data_contains_True_iff)
qed

lemma data_contains_extra:
  "k \<notin> fst ` set ed \<Longrightarrow>
   logEntryData_contains marshal (AList.update k x ad) ed = logEntryData_contains marshal ad ed"
proof (induction ed)
  case Nil
  then show ?case by simp
next
  case (Cons p ed)
  obtain k' v where p: "p = (k', v)" by (cases p)
  from Cons.prems have "k' \<noteq> k" and "k \<notin> fst ` set ed" by (auto simp: p)
  then show ?case using Cons.IH by (simp add: p update_conv' split: option.split sum.split)
qed

text \<open>
  C2. In the newer revision an actual record \<open>a\<close> contains an expectation \<open>e\<close> (the
  test returns true) if and only if a non-empty expected source equals the actual
  source, a non-empty expected message equals the actual message, the levels are
  equal, and every key of the expectation's data map is a key of the actual data map
  whose value has the same serialization as the expected value; a key of the actual
  data that the expectation does not have changes nothing.
\<close>

theorem logEntry_contains_iff:
  assumes "distinct (map fst (data e))"
  shows "(logEntry_contains marshal a e = Inr True \<longleftrightarrow>
            (source e \<noteq> [] \<longrightarrow> source a = source e) \<and>
            (message e \<noteq> [] \<longrightarrow> message a = message e) \<and>
            log_level a = log_level e \<and>
            (\<forall>k v. map_of (data e) k = Some v \<longrightarrow>
               (\<exists>av. map_of (data a) k = Some av \<and> same_serialization marshal av v))) \<and>
         (\<forall>k x. k \<notin> fst ` set (data e) \<longrightarrow>
            logEntry_contains marshal (a\<lparr>data := AList.update k x (data a)\<rparr>) e =
            logEntry_contains marshal a e)"
  unfolding logEntry_contains_def data_contains_map_of[OF assms, symmetric]
  by (simp add: data_contains_extra)

theorem logEntry_contains_iff_witness:
  "distinct (map fst (data expect_starting)) \<and>
   logEntry_contains sample_marshal sample_info expect_starting = Inr True \<and>
   log_level sample_info = log_level expect_starting \<and>
   map_of (data sample_info) ''event'' = Some (GString ''starting'') \<and>
   same_serialization sample_marshal (GString ''starting'') (GString ''starting'') \<and>
   logEntry_contains sample_marshal
     (sample_info\<lparr>data := AList.update ''extra'' (GOther (Number 1)) (data sample_info)\<rparr>)
     expect_starting = Inr True"
  using logEntry_contains_iff[of expect_starting sample_marshal sample_info]
  by (simp add: expect_starting_def sample_info_def logEntry_contains_def
      same_serialization_def INFO_def)

text \<open>
  C7. In the newer revision the result of the containment test does not depend on the
  timestamp of either record. In the older revision it does not depend on the actual
  record's timestamp when the expectation's timestamp is empty, and an expectation
  with a non-empty timestamp is contained only in a record with that same timestamp.
\<close>

theorem contains_timestamp:
  "logEntry_contains marshal (a\<lparr>timestamp := t\<rparr>) (e\<lparr>timestamp := u\<rparr>) =
     logEntry_contains marshal a e \<and>
   (timestamp e = [] \<longrightarrow>
      legacy_contains ne (a\<lparr>timestamp := t\<rparr>) e = legacy_contains ne a e) \<and>
   (legacy_contains ne a e = Inr True \<longrightarrow> timestamp e = [] \<or> timestamp a = timestamp e)"
  by (simp add: logEntry_contains_def legacy_contains_def)

theorem contains_timestamp_witness:
  "logEntry_contains sample_marshal (sample_info\<lparr>timestamp := ''7''\<rparr>)
      (expect_starting\<lparr>timestamp := ''8''\<rparr>) = Inr True \<and>
   timestamp expect_starting = [] \<and>
   legacy_contains sample_ne (sample_info\<lparr>timestamp := ''7''\<rparr>) expect_starting = Inr True \<and>
   legacy_contains sample_ne sample_info (expect_starting\<lparr>timestamp := ''1404.000000001''\<rparr>)
     = Inr True \<and>
   timestamp sample_info = ''1404.000000001''"
  using contains_timestamp[where marshal = sample_marshal and a = sample_info and t = "''7''"
      and e = expect_starting and u = "''8''" and ne = sample_ne]
    contains_timestamp[where marshal = sample_marshal and a = sample_info and t = "''7''"
      and e = "expect_starting\<lparr>timestamp := ''1404.000000001''\<rparr>" and u = "''8''"
      and ne = sample_ne]
  by (simp add: expect_starting_def sample_info_def logEntry_contains_def legacy_contains_def
      INFO_def)

theorem legacy_contains_timestamp_counterexample:
  "legacy_contains sample_ne (sample_info\<lparr>timestamp := ''1''\<rparr>)
      (expect_starting\<lparr>timestamp := ''1''\<rparr>) = Inr True \<and>
   legacy_contains sample_ne (sample_info\<lparr>timestamp := ''2''\<rparr>)
      (expect_starting\<lparr>timestamp := ''1''\<rparr>) = Inr False"
  by (simp add: expect_starting_def sample_info_def legacy_contains_def INFO_def)

section \<open>The sequence search\<close>

declare first_from.simps [simp del]

lemma first_from_Some:
  "first_from P as c = Some j \<Longrightarrow>
     c \<le> j \<and> j < length as \<and> P (as ! j) \<and> (\<forall>k. c \<le> k \<and> k < j \<longrightarrow> \<not> P (as ! k))"
proof (induction P as c rule: first_from.induct)
  case (1 P as c)
  show ?case
  proof (cases "length as \<le> c")
    case True
    with "1.prems" show ?thesis by (simp add: first_from.simps)
  next
    case False
    show ?thesis
    proof (cases "P (as ! c)")
      case True
      with False "1.prems" show ?thesis by (auto simp: first_from.simps[of P as c])
    next
      case nP: False
      with False "1.prems" have "first_from P as (c + 1) = Some j"
        by (simp add: first_from.simps[of P as c])
      from "1.IH"[OF False nP this] have *: "c + 1 \<le> j" "j < length as" "P (as ! j)"
        "\<forall>k. c + 1 \<le> k \<and> k < j \<longrightarrow> \<not> P (as ! k)" by auto
      have "\<not> P (as ! k)" if "c \<le> k" "k < j" for k
      proof (cases "k = c")
        case True then show ?thesis using nP by simp
      next
        case False then show ?thesis using that * by auto
      qed
      with * show ?thesis by auto
    qed
  qed
qed

lemma first_from_None:
  "first_from P as c = None \<Longrightarrow> c \<le> k \<Longrightarrow> k < length as \<Longrightarrow> \<not> P (as ! k)"
proof (induction P as c rule: first_from.induct)
  case (1 P as c)
  from "1.prems" have lt: "\<not> length as \<le> c" by simp
  show ?case
  proof (cases "P (as ! c)")
    case True
    with lt "1.prems" show ?thesis by (simp add: first_from.simps[of P as c])
  next
    case nP: False
    with lt "1.prems" have n: "first_from P as (c + 1) = None"
      by (simp add: first_from.simps[of P as c])
    show ?thesis
    proof (cases "k = c")
      case True then show ?thesis using nP by simp
    next
      case False
      with "1.prems" have "c + 1 \<le> k" by simp
      from "1.IH"[OF lt nP n this "1.prems"(3)] show ?thesis .
    qed
  qed
qed

lemma first_from_exists:
  assumes "c \<le> k" "k < length as" "P (as ! k)"
  shows "\<exists>j. first_from P as c = Some j \<and> j \<le> k"
proof (cases "first_from P as c")
  case None
  from first_from_None[OF None assms(1,2)] assms(3) show ?thesis by simp
next
  case (Some j)
  from first_from_Some[OF Some] assms have "j \<le> k"
    by (metis not_le_imp_less)
  with Some show ?thesis by simp
qed

lemma cursor_match_sound:
  "cursor_match P as c es \<Longrightarrow> occurs_in_order_from P as c es"
proof (induction es arbitrary: c)
  case Nil
  show ?case by (simp add: occurs_in_order_from_def)
next
  case (Cons e es)
  from Cons.prems obtain i where i: "first_from (\<lambda>a. P a e) as c = Some i"
    and rest: "cursor_match P as (i + 1) es"
    by (auto split: option.splits)
  from first_from_Some[OF i] have ci: "c \<le> i" "i < length as" "P (as ! i) e" by auto
  from Cons.IH[OF rest] obtain ixs where ixs: "length ixs = length es" "sorted_wrt (<) ixs"
    "\<forall>j < length es. i + 1 \<le> ixs ! j \<and> ixs ! j < length as \<and> P (as ! (ixs ! j)) (es ! j)"
    by (auto simp: occurs_in_order_from_def)
  have gt: "\<forall>x \<in> set ixs. i < x"
  proof
    fix x assume "x \<in> set ixs"
    then obtain j where "j < length ixs" "ixs ! j = x" by (auto simp: in_set_conv_nth)
    with ixs show "i < x" by auto
  qed
  have "\<forall>j < length (e # es). c \<le> (i # ixs) ! j \<and> (i # ixs) ! j < length as
          \<and> P (as ! ((i # ixs) ! j)) ((e # es) ! j)"
  proof (intro allI impI)
    fix j assume j: "j < length (e # es)"
    show "c \<le> (i # ixs) ! j \<and> (i # ixs) ! j < length as \<and> P (as ! ((i # ixs) ! j)) ((e # es) ! j)"
    proof (cases j)
      case 0
      with ci show ?thesis by simp
    next
      case (Suc j')
      with j have "j' < length es" by simp
      with ixs(3) ci Suc show ?thesis by auto
    qed
  qed
  with ixs(1,2) gt show ?case
    unfolding occurs_in_order_from_def
    by (intro exI[of _ "i # ixs"]) simp
qed

lemma cursor_match_complete:
  "occurs_in_order_from P as c es \<Longrightarrow> cursor_match P as c es"
proof (induction es arbitrary: c)
  case Nil
  show ?case by simp
next
  case (Cons e es)
  from Cons.prems obtain js where js: "length js = length (e # es)" "sorted_wrt (<) js"
    "\<forall>j < length (e # es). c \<le> js ! j \<and> js ! j < length as \<and> P (as ! (js ! j)) ((e # es) ! j)"
    by (auto simp: occurs_in_order_from_def)
  then obtain i0 ixs where split: "js = i0 # ixs" by (cases js) auto
  from js(3) split have i0: "c \<le> i0" "i0 < length as" "P (as ! i0) e" by auto
  from first_from_exists[of c i0 as "\<lambda>a. P a e", OF i0] obtain i
    where i: "first_from (\<lambda>a. P a e) as c = Some i" "i \<le> i0" by auto
  from js(2) split have gt: "\<forall>x \<in> set ixs. i0 < x" and srt: "sorted_wrt (<) ixs" by auto
  have "\<forall>j < length es. i + 1 \<le> ixs ! j \<and> ixs ! j < length as \<and> P (as ! (ixs ! j)) (es ! j)"
  proof (intro allI impI)
    fix j assume j: "j < length es"
    with js(1) split have jl: "j < length ixs" by simp
    then have "i0 < ixs ! j" using gt by simp
    moreover from js(3) j split have "ixs ! j < length as \<and> P (as ! (ixs ! j)) (es ! j)"
      by (metis Suc_less_eq length_Cons nth_Cons_Suc)
    ultimately show "i + 1 \<le> ixs ! j \<and> ixs ! j < length as \<and> P (as ! (ixs ! j)) (es ! j)"
      using i(2) by simp
  qed
  with js(1) split srt have "occurs_in_order_from P as (i + 1) es"
    unfolding occurs_in_order_from_def by (intro exI[of _ ixs]) simp
  from Cons.IH[OF this] i(1) show ?case by simp
qed


lemma data_contains_serializable:
  "list_all (\<lambda>kv. case marshal (snd kv) of Inl err \<Rightarrow> False | Inr b \<Rightarrow> True) ed \<Longrightarrow>
   logEntryData_contains marshal ad ed \<noteq> Inl err"
proof (induction ed)
  case Nil
  then show ?case by simp
next
  case (Cons p ed)
  obtain k v where p: "p = (k, v)" by (cases p)
  from Cons.prems obtain j where j: "marshal v = Inr j"
    by (auto simp: p split: sum.splits)
  from Cons.prems Cons.IH have b: "logEntryData_contains marshal ad ed \<noteq> Inl err"
    by auto
  show ?case by (cases "map_of ad k") (simp_all add: p j b)
qed

lemma contains_serializable:
  assumes "serializable marshal e"
  shows "logEntry_contains marshal a e = Inr (contained marshal a e)"
proof (cases "logEntry_contains marshal a e")
  case (Inl err)
  then have "logEntryData_contains marshal (data a) (data e) = Inl err"
    by (simp add: logEntry_contains_def split: if_splits)
  with data_contains_serializable[of marshal "data e" "data a" err] assms
  show ?thesis by (simp add: serializable_def)
next
  case (Inr b)
  then show ?thesis by (simp add: contained_def)
qed

lemma data_contains_True_serializable:
  "logEntryData_contains marshal ad ed = Inr True \<Longrightarrow>
   list_all (\<lambda>kv. case marshal (snd kv) of Inl err \<Rightarrow> False | Inr b \<Rightarrow> True) ed"
  unfolding data_contains_True_iff list_all_iff same_serialization_def
  by (auto split: sum.splits)

lemma contained_serializable: "contained marshal a e \<Longrightarrow> serializable marshal e"
  unfolding contained_def serializable_def logEntry_contains_def
  by (auto split: if_splits intro: data_contains_True_serializable)

lemma data_contains_error:
  "logEntryData_contains marshal ad ed = Inl err \<Longrightarrow>
   \<exists>p \<in> set ed. \<exists>msg. marshal (snd p) = Inl msg \<and> err = MarshalError msg"
proof (induction ed)
  case Nil
  then show ?case by simp
next
  case (Cons p ed)
  obtain k v where p: "p = (k, v)" by (cases p)
  show ?case
  proof (cases "map_of ad k")
    case None
    with Cons.prems show ?thesis by (simp add: p)
  next
    case (Some av)
    show ?thesis
    proof (cases "marshal v")
      case (Inl msg)
      with Cons.prems Some show ?thesis by (simp add: p)
    next
      case (Inr j)
      with Cons.prems Some have "logEntryData_contains marshal ad ed = Inl err"
        by (simp add: p Let_def split: if_splits)
      from Cons.IH[OF this] show ?thesis by auto
    qed
  qed
qed

lemma contains_error:
  "logEntry_contains marshal a e = Inl err \<Longrightarrow>
   \<exists>p \<in> set (data e). \<exists>msg. marshal (snd p) = Inl msg \<and> err = MarshalError msg"
  unfolding logEntry_contains_def
  by (auto split: if_splits dest: data_contains_error)

lemma indexOf_loop_first_from:
  assumes "serializable marshal e"
  shows "indexOf_loop marshal i (drop c as) e =
     Inr (map_option (\<lambda>j. i + (j - c)) (first_from (\<lambda>a. contained marshal a e) as c))"
proof (induction "\<lambda>a. contained marshal a e" as c arbitrary: i rule: first_from.induct)
  case (1 as c)
  show ?case
  proof (cases "length as \<le> c")
    case True
    then show ?thesis by (simp add: first_from.simps[of _ as c])
  next
    case False
    then have d: "drop c as = as ! c # drop (c + 1) as"
      by (simp add: Cons_nth_drop_Suc)
    show ?thesis
    proof (cases "contained marshal (as ! c) e")
      case True
      with False show ?thesis
        by (simp add: d first_from.simps[of _ as c] contains_serializable[OF assms])
    next
      case nP: False
      have "map_option (\<lambda>j. Suc i + (j - (c + 1))) (first_from (\<lambda>a. contained marshal a e) as (c + 1))
          = map_option (\<lambda>j. i + (j - c)) (first_from (\<lambda>a. contained marshal a e) as (c + 1))"
      proof (cases "first_from (\<lambda>a. contained marshal a e) as (c + 1)")
        case None
        then show ?thesis by simp
      next
        case (Some j)
        from first_from_Some[OF Some] have "c + 1 \<le> j" by simp
        with Some show ?thesis by simp
      qed
      with "1.hyps"[OF False nP, of "Suc i"] False nP show ?thesis
        by (simp add: d first_from.simps[of _ as c] contains_serializable[OF assms])
    qed
  qed
qed

lemma indexOf_first_from:
  assumes "serializable marshal e"
  shows "logEntries_indexOf marshal (drop c as) e =
     Inr (map_option (\<lambda>j. j - c) (first_from (\<lambda>a. contained marshal a e) as c))"
  unfolding logEntries_indexOf_def indexOf_loop_first_from[OF assms]
  by simp

lemma match_loop_cursor:
  "list_all (serializable marshal) es \<Longrightarrow>
   match_loop marshal es (drop c as) = Inr (cursor_match (contained marshal) as c es)"
proof (induction es arbitrary: c)
  case Nil
  show ?case by simp
next
  case (Cons e es)
  from Cons.prems have se: "serializable marshal e" and ses: "list_all (serializable marshal) es"
    by auto
  show ?case
  proof (cases "first_from (\<lambda>a. contained marshal a e) as c")
    case None
    then show ?thesis by (simp add: indexOf_first_from[OF se])
  next
    case (Some j)
    from first_from_Some[OF Some] have "c \<le> j" by simp
    then have "drop (j - c + 1) (drop c as) = drop (j + 1) as" by simp
    with Cons.IH[OF ses, of "j + 1"] Some show ?thesis
      by (simp add: indexOf_first_from[OF se])
  qed
qed

lemma indexOf_loop_Some_contained:
  "indexOf_loop marshal i as e = Inr (Some j) \<Longrightarrow> \<exists>a \<in> set as. contained marshal a e"
proof (induction as arbitrary: i)
  case Nil
  then show ?case by simp
next
  case (Cons a as)
  show ?case
  proof (cases "logEntry_contains marshal a e")
    case (Inl err)
    with Cons.prems show ?thesis by simp
  next
    case (Inr b)
    show ?thesis
    proof (cases b)
      case True
      with Inr show ?thesis by (simp add: contained_def)
    next
      case False
      with Inr Cons.prems have "indexOf_loop marshal (Suc i) as e = Inr (Some j)" by simp
      from Cons.IH[OF this] show ?thesis by auto
    qed
  qed
qed

lemma match_loop_True_serializable:
  "match_loop marshal es as = Inr True \<Longrightarrow> list_all (serializable marshal) es"
proof (induction es arbitrary: as)
  case Nil
  show ?case by simp
next
  case (Cons e es)
  from Cons.prems obtain i where i: "logEntries_indexOf marshal as e = Inr (Some i)"
    and rest: "match_loop marshal es (drop (i + 1) as) = Inr True"
    by (auto split: sum.splits option.splits)
  from i indexOf_loop_Some_contained obtain a where "contained marshal a e"
    unfolding logEntries_indexOf_def by blast
  then have "serializable marshal e" by (rule contained_serializable)
  with Cons.IH[OF rest] show ?case by simp
qed

lemma occurs_serializable:
  assumes "occurs_in_order_from (contained marshal) as c es"
  shows "list_all (serializable marshal) es"
proof -
  from assms obtain ixs where ixs: "length ixs = length es"
    "\<forall>j < length es. contained marshal (as ! (ixs ! j)) (es ! j)"
    by (auto simp: occurs_in_order_from_def)
  have "serializable marshal e" if "e \<in> set es" for e
  proof -
    from that obtain j where "j < length es" "es ! j = e" by (auto simp: in_set_conv_nth)
    with ixs(2) have "contained marshal (as ! (ixs ! j)) e" by auto
    then show ?thesis by (rule contained_serializable)
  qed
  then show ?thesis by (simp add: list_all_iff)
qed

lemma match_loop_True_iff:
  "match_loop marshal es as = Inr True \<longleftrightarrow> occurs_in_order_from (contained marshal) as 0 es"
proof
  assume t: "match_loop marshal es as = Inr True"
  from match_loop_cursor[OF match_loop_True_serializable[OF t], of 0 as] t
  have "cursor_match (contained marshal) as 0 es" by simp
  then show "occurs_in_order_from (contained marshal) as 0 es" by (rule cursor_match_sound)
next
  assume o: "occurs_in_order_from (contained marshal) as 0 es"
  from match_loop_cursor[OF occurs_serializable[OF o], of 0 as] cursor_match_complete[OF o]
  show "match_loop marshal es as = Inr True" by simp
qed

lemma decode_loop_clean:
  "decode_loop (map Inr as) acc = (None, acc @ as, [])"
  by (induction as arbitrary: acc) simp_all

lemma match_records_clean:
  "match_records marshal lm (map Inr as) =
     (match_loop marshal (expected lm) as, lm\<lparr>actual := as\<rparr>, [])"
  by (simp add: match_records_def decode_loop_clean)

lemma Match_accepted:
  "accepted_records x = Some rs \<Longrightarrow>
   fst (Match marshal lm x) = fst (match_records marshal lm rs) \<and>
   fst (snd (Match marshal lm x)) = fst (snd (match_records marshal lm rs))"
  by (auto simp: accepted_records_def Match_def split: option.splits prod.splits)



lemma indexOf_loop_error:
  "indexOf_loop marshal i as e = Inl err \<Longrightarrow>
   \<exists>p \<in> set (data e). \<exists>msg. marshal (snd p) = Inl msg \<and> err = MarshalError msg"
proof (induction as arbitrary: i)
  case Nil
  then show ?case by simp
next
  case (Cons a as)
  show ?case
  proof (cases "logEntry_contains marshal a e")
    case (Inl err')
    with Cons.prems have "err' = err" by simp
    with Inl contains_error show ?thesis by blast
  next
    case (Inr b)
    with Cons.prems have "indexOf_loop marshal (Suc i) as e = Inl err"
      by (simp split: if_splits)
    from Cons.IH[OF this] show ?thesis .
  qed
qed

lemma match_loop_error:
  "match_loop marshal es as = Inl err \<Longrightarrow>
   \<exists>e \<in> set es. \<exists>p \<in> set (data e). \<exists>msg. marshal (snd p) = Inl msg \<and> err = MarshalError msg"
proof (induction es arbitrary: as)
  case Nil
  then show ?case by simp
next
  case (Cons e es)
  show ?case
  proof (cases "logEntries_indexOf marshal as e")
    case (Inl err')
    with Cons.prems have "err' = err" by simp
    with Inl indexOf_loop_error[of marshal 0 as e err] show ?thesis
      by (auto simp: logEntries_indexOf_def)
  next
    case (Inr r)
    show ?thesis
    proof (cases r)
      case None
      with Inr Cons.prems show ?thesis by simp
    next
      case (Some i)
      with Inr Cons.prems have "match_loop marshal es (drop (i + 1) as) = Inl err" by simp
      from Cons.IH[OF this] show ?thesis by auto
    qed
  qed
qed

lemmas sample_defs = sample_sink_def sample_info_def sample_debug_def sample_error_def
  expect_starting_def expect_failed_def expect_channel_def INFO_def DEBUG_def ERROR_def FATAL_def

lemmas Match_defs = Match_def match_records_def logEntries_indexOf_def logEntry_contains_def
  ContainSequence_def

text \<open>
  The older \<^verbatim>\<open>Match\<close> runs the same search with its own containment test, which
  returns no error but panics when it compares two values of the same uncomparable
  type. When no comparison panics, its result is the boolean of the cursor algorithm,
  true exactly when the expected entries occur in order.
\<close>

lemma comparable_data_contains:
  "comparable_data ne ad ed \<Longrightarrow> legacy_data_contains ne ad ed \<noteq> Inl p"
proof (induction ed)
  case Nil
  then show ?case by simp
next
  case (Cons kv ed)
  obtain k v where kv: "kv = (k, v)" by (cases kv)
  from Cons.prems have r: "comparable_data ne ad ed"
    by (simp add: comparable_data_def)
  note ih = Cons.IH[OF r]
  show ?case
  proof (cases "map_of ad k")
    case None
    then show ?thesis by (simp add: kv)
  next
    case (Some av)
    with Cons.prems have "iface_ne ne v av \<noteq> Inl p"
      by (cases "iface_ne ne v av") (simp_all add: comparable_data_def kv)
    with Some ih show ?thesis
      by (cases "iface_ne ne v av") (simp_all add: kv)
  qed
qed

lemma legacy_no_panic_contains:
  assumes "legacy_no_panic ne as e" and "c < length as"
  shows "legacy_contains ne (as ! c) e = Inr (legacy_contained ne (as ! c) e)"
proof -
  from assms have "comparable_data ne (data (as ! c)) (data e)"
    by (simp add: legacy_no_panic_def list_all_length)
  then have "legacy_data_contains ne (data (as ! c)) (data e) \<noteq> Inl p" for p
    by (rule comparable_data_contains)
  then have n: "legacy_contains ne (as ! c) e \<noteq> Inl p" for p
    by (simp add: legacy_contains_def)
  show ?thesis
  proof (cases "legacy_contains ne (as ! c) e")
    case (Inl q)
    with n show ?thesis by blast
  next
    case (Inr b)
    then show ?thesis by (simp add: legacy_contained_def)
  qed
qed

lemma legacy_indexOf_loop_first_from:
  assumes "legacy_no_panic ne as e"
  shows "legacy_indexOf_loop ne i (drop c as) e =
     Inr (map_option (\<lambda>j. i + (j - c)) (first_from (\<lambda>a. legacy_contained ne a e) as c))"
  using assms
proof (induction "\<lambda>a. legacy_contained ne a e" as c arbitrary: i rule: first_from.induct)
  case (1 as c)
  show ?case
  proof (cases "length as \<le> c")
    case True
    then show ?thesis by (simp add: first_from.simps[of _ as c])
  next
    case False
    then have d: "drop c as = as ! c # drop (c + 1) as"
      by (simp add: Cons_nth_drop_Suc)
    from False have lt: "c < length as" by simp
    note cn = legacy_no_panic_contains[OF "1.prems" lt]
    show ?thesis
    proof (cases "legacy_contained ne (as ! c) e")
      case True
      with False show ?thesis
        by (simp add: d first_from.simps[of _ as c] cn)
    next
      case nP: False
      have "map_option (\<lambda>j. Suc i + (j - (c + 1))) (first_from (\<lambda>a. legacy_contained ne a e) as (c + 1))
          = map_option (\<lambda>j. i + (j - c)) (first_from (\<lambda>a. legacy_contained ne a e) as (c + 1))"
      proof (cases "first_from (\<lambda>a. legacy_contained ne a e) as (c + 1)")
        case None
        then show ?thesis by simp
      next
        case (Some j)
        from first_from_Some[OF Some] have "c + 1 \<le> j" by simp
        with Some show ?thesis by simp
      qed
      with "1.hyps"[OF False nP "1.prems", of "Suc i"] False nP show ?thesis
        by (simp add: d first_from.simps[of _ as c] cn)
    qed
  qed
qed

lemma legacy_match_loop_cursor:
  "list_all (legacy_no_panic ne as) es \<Longrightarrow>
   legacy_match_loop ne es (drop c as) = Inr (cursor_match (legacy_contained ne) as c es)"
proof (induction es arbitrary: c)
  case Nil
  show ?case by simp
next
  case (Cons e es)
  from Cons.prems have se: "legacy_no_panic ne as e" and ses: "list_all (legacy_no_panic ne as) es"
    by auto
  note ix = legacy_indexOf_loop_first_from[OF se, of 0 c]
  show ?case
  proof (cases "first_from (\<lambda>a. legacy_contained ne a e) as c")
    case None
    then show ?thesis by (simp add: legacy_indexOf_def ix)
  next
    case (Some j)
    from first_from_Some[OF Some] have "c \<le> j" by simp
    then have "drop (j - c + 1) (drop c as) = drop (j + 1) as" by simp
    with Cons.IH[OF ses, of "j + 1"] Some show ?thesis
      by (simp add: legacy_indexOf_def ix)
  qed
qed

lemma legacy_match_loop_in_order:
  assumes "list_all (legacy_no_panic ne as) es"
  shows "legacy_match_loop ne es as = Inr True \<longleftrightarrow>
         occurs_in_order_from (legacy_contained ne) as 0 es"
  using legacy_match_loop_cursor[OF assms, of 0] cursor_match_sound cursor_match_complete
  by auto

lemma iface_ne_error: "iface_ne ne v w = Inl p \<Longrightarrow> p = Uncomparable"
  by (cases v; cases w) (auto split: option.splits)

lemma legacy_data_contains_error:
  "legacy_data_contains ne ad ed = Inl p \<Longrightarrow> p = Uncomparable"
proof (induction ed)
  case Nil
  then show ?case by simp
next
  case (Cons kv ed)
  obtain k v where kv: "kv = (k, v)" by (cases kv)
  show ?case
  proof (cases "map_of ad k")
    case None
    with Cons.prems show ?thesis by (simp add: kv)
  next
    case (Some av)
    show ?thesis
    proof (cases "iface_ne ne v av")
      case (Inl q)
      with Cons.prems Some have "q = p" by (simp add: kv)
      with Inl iface_ne_error show ?thesis by blast
    next
      case (Inr d)
      with Cons.prems Some have "legacy_data_contains ne ad ed = Inl p"
        by (simp add: kv split: if_splits)
      then show ?thesis by (rule Cons.IH)
    qed
  qed
qed

lemma legacy_contains_error: "legacy_contains ne a e = Inl p \<Longrightarrow> p = Uncomparable"
  unfolding legacy_contains_def
  by (auto split: if_splits dest: legacy_data_contains_error)

lemma legacy_indexOf_loop_error:
  "legacy_indexOf_loop ne i as e = Inl p \<Longrightarrow> p = Uncomparable"
proof (induction as arbitrary: i)
  case Nil
  then show ?case by simp
next
  case (Cons a as)
  show ?case
  proof (cases "legacy_contains ne a e")
    case (Inl q)
    with Cons.prems have "q = p" by simp
    with Inl legacy_contains_error show ?thesis by blast
  next
    case (Inr b)
    with Cons.prems have "legacy_indexOf_loop ne (Suc i) as e = Inl p"
      by (simp split: if_splits)
    then show ?thesis by (rule Cons.IH)
  qed
qed

lemma legacy_match_loop_error:
  "legacy_match_loop ne es as = Inl p \<Longrightarrow> p = Uncomparable"
proof (induction es arbitrary: as)
  case Nil
  then show ?case by simp
next
  case (Cons e es)
  show ?case
  proof (cases "legacy_indexOf ne as e")
    case (Inl q)
    with Cons.prems have "q = p" by simp
    with Inl legacy_indexOf_loop_error[of ne 0 as e] show ?thesis
      by (simp add: legacy_indexOf_def)
  next
    case (Inr r)
    show ?thesis
    proof (cases r)
      case None
      with Inr Cons.prems show ?thesis by simp
    next
      case (Some i)
      with Inr Cons.prems have "legacy_match_loop ne es (drop (i + 1) as) = Inl p" by simp
      then show ?thesis by (rule Cons.IH)
    qed
  qed
qed

lemma legacy_indexOf_loop_result:
  "legacy_indexOf_loop ne i (drop c as) e = Inr r \<Longrightarrow>
   r = map_option (\<lambda>j. i + (j - c)) (first_from (\<lambda>a. legacy_contained ne a e) as c)"
proof (induction "\<lambda>a. legacy_contained ne a e" as c arbitrary: i rule: first_from.induct)
  case (1 as c)
  show ?case
  proof (cases "length as \<le> c")
    case True
    with "1.prems" show ?thesis by (simp add: first_from.simps[of _ as c])
  next
    case False
    then have d: "drop c as = as ! c # drop (c + 1) as"
      by (simp add: Cons_nth_drop_Suc)
    show ?thesis
    proof (cases "legacy_contains ne (as ! c) e")
      case (Inl p)
      with "1.prems" show ?thesis by (simp add: d)
    next
      case (Inr b)
      then have cb: "legacy_contained ne (as ! c) e = b" by (simp add: legacy_contained_def)
      show ?thesis
      proof (cases b)
        case True
        with Inr cb False "1.prems" show ?thesis
          by (auto simp: d first_from.simps[of _ as c])
      next
        case nb: False
        with cb have nP: "\<not> legacy_contained ne (as ! c) e" by simp
        from "1.prems" Inr nb have rec: "legacy_indexOf_loop ne (Suc i) (drop (c + 1) as) e = Inr r"
          by (simp add: d)
        have eq: "map_option (\<lambda>j. Suc i + (j - (c + 1))) (first_from (\<lambda>a. legacy_contained ne a e) as (c + 1))
            = map_option (\<lambda>j. i + (j - c)) (first_from (\<lambda>a. legacy_contained ne a e) as (c + 1))"
        proof (cases "first_from (\<lambda>a. legacy_contained ne a e) as (c + 1)")
          case None
          then show ?thesis by simp
        next
          case (Some j)
          from first_from_Some[OF Some] have "c + 1 \<le> j" by simp
          with Some show ?thesis by simp
        qed
        have ff: "first_from (\<lambda>a. legacy_contained ne a e) as c
            = first_from (\<lambda>a. legacy_contained ne a e) as (c + 1)"
          using False nP by (simp add: first_from.simps[of _ as c])
        from "1.hyps"[OF False nP rec] eq show ?thesis unfolding ff by simp
      qed
    qed
  qed
qed

lemma legacy_match_loop_result:
  "legacy_match_loop ne es (drop c as) = Inr b \<Longrightarrow>
   b = cursor_match (legacy_contained ne) as c es"
proof (induction es arbitrary: c)
  case Nil
  then show ?case by simp
next
  case (Cons e es)
  show ?case
  proof (cases "legacy_indexOf ne (drop c as) e")
    case (Inl p)
    with Cons.prems show ?thesis by simp
  next
    case (Inr r)
    from legacy_indexOf_loop_result[of ne 0 c as e r] Inr
    have r: "r = map_option (\<lambda>j. j - c) (first_from (\<lambda>a. legacy_contained ne a e) as c)"
      by (simp add: legacy_indexOf_def)
    show ?thesis
    proof (cases "first_from (\<lambda>a. legacy_contained ne a e) as c")
      case None
      with Inr r Cons.prems show ?thesis by auto
    next
      case (Some k)
      from first_from_Some[OF Some] have "c \<le> k" by simp
      then have dd: "drop (k - c + 1) (drop c as) = drop (k + 1) as" by simp
      from Inr r Some Cons.prems \<open>c \<le> k\<close>
      have "legacy_match_loop ne es (drop (k + 1) as) = Inr b"
        by simp
      from Cons.IH[OF this] Some show ?thesis by simp
    qed
  qed
qed

lemma legacy_data_contains_True:
  "legacy_data_contains ne ad ed = Inr True \<Longrightarrow>
   \<forall>q \<in> set ed. \<exists>av. iface_ne ne (snd q) av = Inr False"
proof (induction ed)
  case Nil
  then show ?case by simp
next
  case (Cons kv ed)
  obtain k v where kv: "kv = (k, v)" by (cases kv)
  from Cons.prems obtain av where av: "map_of ad k = Some av"
    by (cases "map_of ad k") (simp_all add: kv)
  from Cons.prems av have f: "iface_ne ne v av = Inr False"
    and rest: "legacy_data_contains ne ad ed = Inr True"
    by (auto simp: kv split: sum.splits if_splits)
  from Cons.IH[OF rest] f show ?case by (auto simp: kv)
qed

lemma iface_ne_go:
  assumes "go_comparison ne" and "iface_ne ne v av = Inr False"
  shows "iface_ne ne v av' \<noteq> Inl p"
proof (cases v)
  case (GString s)
  then show ?thesis by (cases av') simp_all
next
  case (GOther x)
  with assms(2) obtain y where y: "av = GOther y" "ne x y = Some False"
    by (cases av) (auto split: option.splits)
  show ?thesis
  proof (cases av')
    case (GString s)
    with GOther show ?thesis by simp
  next
    case (GOther z)
    from assms(1) y(2) have "ne x z \<noteq> None"
      unfolding go_comparison_def by blast
    with GOther \<open>v = GOther x\<close> show ?thesis by (auto split: option.splits)
  qed
qed

lemma legacy_contained_no_panic:
  assumes "go_comparison ne" and "legacy_contained ne a e"
  shows "legacy_no_panic ne as e"
proof -
  from assms(2) have "legacy_data_contains ne (data a) (data e) = Inr True"
    by (simp add: legacy_contained_def legacy_contains_def split: if_splits)
  from legacy_data_contains_True[OF this] iface_ne_go[OF assms(1)]
  have h: "\<forall>q \<in> set (data e). \<forall>av' p. iface_ne ne (snd q) av' \<noteq> Inl p" by blast
  have "comparable_data ne ad (data e)" for ad
    unfolding comparable_data_def list_all_iff
  proof
    fix kv assume kv: "kv \<in> set (data e)"
    show "case map_of ad (fst kv) of
            None \<Rightarrow> True
          | Some actualValue \<Rightarrow>
              (case iface_ne ne (snd kv) actualValue of Inl p \<Rightarrow> False | Inr differ \<Rightarrow> True)"
    proof (cases "map_of ad (fst kv)")
      case None
      then show ?thesis by simp
    next
      case (Some av)
      from h kv have n: "iface_ne ne (snd kv) av \<noteq> Inl p" for p by blast
      show ?thesis
      proof (cases "iface_ne ne (snd kv) av")
        case (Inl q)
        with n show ?thesis by blast
      next
        case (Inr b)
        with Some show ?thesis by simp
      qed
    qed
  qed
  then show ?thesis by (simp add: legacy_no_panic_def list_all_iff)
qed

lemma legacy_occurs_no_panic:
  assumes "go_comparison ne" and "occurs_in_order_from (legacy_contained ne) as c es"
  shows "list_all (legacy_no_panic ne as) es"
proof -
  from assms(2) obtain ixs where ixs: "length ixs = length es"
    "\<forall>j < length es. legacy_contained ne (as ! (ixs ! j)) (es ! j)"
    by (auto simp: occurs_in_order_from_def)
  have "legacy_no_panic ne as e" if "e \<in> set es" for e
  proof -
    from that obtain j where "j < length es" "es ! j = e" by (auto simp: in_set_conv_nth)
    with ixs(2) have "legacy_contained ne (as ! (ixs ! j)) e" by auto
    with assms(1) show ?thesis by (rule legacy_contained_no_panic)
  qed
  then show ?thesis by (simp add: list_all_iff)
qed

lemma legacy_Match_clean:
  "reader x = Some (map Inr as) \<Longrightarrow>
   fst (legacy_Match ne lm x) = legacy_match_loop ne (expected lm) as"
  by (simp add: legacy_Match_def decode_loop_clean)

lemma go_comparison_sample: "go_comparison sample_ne"
  unfolding go_comparison_def
proof (intro allI impI)
  fix x y z assume "sample_ne x y = None"
  then obtain a where "x = Slice a" by (cases x; cases y) simp_all
  then show "sample_ne x z \<noteq> Some False" by (cases z) simp_all
qed

text \<open>
  C1. On a value whose records all decode (to \<open>as\<close>). In the newer revision
  \<^verbatim>\<open>Match\<close> returns true exactly when the expected entries occur, in their order,
  as a subsequence of \<open>as\<close>, no record serving two of them. When every data value of
  the expected entries can be serialized the result is the boolean of the cursor
  algorithm (the cursor starts at 0, each expected entry takes the first record at or
  after the cursor that contains it, the cursor moves to the position after it, and an
  entry without such a record makes the result false, with no error). Otherwise the
  result can be a hard error, and every such error is the serialization error of a
  data value of an expected entry. In the older revision \<^verbatim>\<open>Match\<close> returns true
  only when the expected entries occur in their order, and does so whenever they occur
  (given what Go's comparison guarantees); when no comparison of an expected with an
  actual value panics the result is the boolean of the same cursor algorithm; and no
  error is returned after decoding.
\<close>

theorem Match_in_order:
  "(accepted_records x = Some (map Inr as) \<longrightarrow>
      (fst (Match marshal lm x) = Inr True \<longleftrightarrow>
         occurs_in_order_from (contained marshal) as 0 (expected lm)) \<and>
      (list_all (serializable marshal) (expected lm) \<longrightarrow>
         fst (Match marshal lm x) =
           Inr (cursor_match (contained marshal) as 0 (expected lm))) \<and>
      (\<forall>err. fst (Match marshal lm x) = Inl err \<longrightarrow>
         (\<exists>e \<in> set (expected lm). \<exists>p \<in> set (data e). \<exists>msg.
            marshal (snd p) = Inl msg \<and> err = MarshalError msg))) \<and>
   (reader x = Some (map Inr as) \<longrightarrow>
      (fst (legacy_Match ne lm x) = Inr True \<longrightarrow>
         occurs_in_order_from (legacy_contained ne) as 0 (expected lm)) \<and>
      (go_comparison ne \<and> occurs_in_order_from (legacy_contained ne) as 0 (expected lm) \<longrightarrow>
         fst (legacy_Match ne lm x) = Inr True) \<and>
      (list_all (legacy_no_panic ne as) (expected lm) \<longrightarrow>
         fst (legacy_Match ne lm x) =
           Inr (cursor_match (legacy_contained ne) as 0 (expected lm))) \<and>
      (\<forall>p. fst (legacy_Match ne lm x) = Inl p \<longrightarrow> p = Uncomparable))"
proof (intro conjI impI)
  assume a: "accepted_records x = Some (map Inr as)"
  have m: "fst (Match marshal lm x) = match_loop marshal (expected lm) as"
    using Match_accepted[OF a, of marshal lm] by (simp add: match_records_clean)
  show "fst (Match marshal lm x) = Inr True \<longleftrightarrow>
         occurs_in_order_from (contained marshal) as 0 (expected lm)"
    unfolding m by (rule match_loop_True_iff)
  show "fst (Match marshal lm x) = Inr (cursor_match (contained marshal) as 0 (expected lm))"
    if "list_all (serializable marshal) (expected lm)"
    unfolding m using match_loop_cursor[OF that, of 0 as] by simp
  show "\<forall>err. fst (Match marshal lm x) = Inl err \<longrightarrow>
         (\<exists>e \<in> set (expected lm). \<exists>p \<in> set (data e). \<exists>msg.
            marshal (snd p) = Inl msg \<and> err = MarshalError msg)"
    unfolding m using match_loop_error[of marshal "expected lm" as] by blast
next
  assume r: "reader x = Some (map Inr as)"
  note m = legacy_Match_clean[OF r, of ne lm]
  show "occurs_in_order_from (legacy_contained ne) as 0 (expected lm)"
    if "fst (legacy_Match ne lm x) = Inr True"
  proof -
    from that m have "legacy_match_loop ne (expected lm) (drop 0 as) = Inr True" by simp
    from legacy_match_loop_result[OF this] show ?thesis by (simp add: cursor_match_sound)
  qed
  show "fst (legacy_Match ne lm x) = Inr True"
    if "go_comparison ne \<and> occurs_in_order_from (legacy_contained ne) as 0 (expected lm)"
  proof -
    from that legacy_occurs_no_panic have "list_all (legacy_no_panic ne as) (expected lm)"
      by blast
    from legacy_match_loop_cursor[OF this, of 0] that cursor_match_complete m
    show ?thesis by auto
  qed
  show "fst (legacy_Match ne lm x) = Inr (cursor_match (legacy_contained ne) as 0 (expected lm))"
    if "list_all (legacy_no_panic ne as) (expected lm)"
    unfolding m using legacy_match_loop_cursor[OF that, of 0] by simp
  show "\<forall>p. fst (legacy_Match ne lm x) = Inl p \<longrightarrow> p = Uncomparable"
    unfolding m using legacy_match_loop_error by blast
qed

theorem Match_in_order_witness:
  "accepted_records sample_sink = Some (map Inr [sample_info, sample_debug, sample_error]) \<and>
   list_all (serializable sample_marshal) [expect_starting, expect_failed] \<and>
   fst (Match sample_marshal (ContainSequence [expect_starting, expect_failed]) sample_sink)
     = Inr True \<and>
   occurs_in_order_from (contained sample_marshal) [sample_info, sample_debug, sample_error] 0
     [expect_starting, expect_failed] \<and>
   cursor_match (contained sample_marshal) [sample_info, sample_debug, sample_error] 0
     [expect_starting, expect_failed] \<and>
   reader sample_log = Some (map Inr [sample_info, sample_debug, sample_error]) \<and>
   go_comparison sample_ne \<and>
   list_all (legacy_no_panic sample_ne [sample_info, sample_debug, sample_error])
     [expect_starting, expect_failed] \<and>
   fst (legacy_Match sample_ne (ContainSequence [expect_starting, expect_failed]) sample_log)
     = Inr True \<and>
   occurs_in_order_from (legacy_contained sample_ne) [sample_info, sample_debug, sample_error] 0
     [expect_starting, expect_failed] \<and>
   cursor_match (legacy_contained sample_ne) [sample_info, sample_debug, sample_error] 0
     [expect_starting, expect_failed]"
proof -
  have a: "accepted_records sample_sink = Some (map Inr [sample_info, sample_debug, sample_error])"
    by (simp add: accepted_records_def sample_sink_def)
  have t: "fst (Match sample_marshal (ContainSequence [expect_starting, expect_failed]) sample_sink)
     = Inr True"
    by (simp add: Match_defs sample_defs)
  have s: "list_all (serializable sample_marshal) [expect_starting, expect_failed]"
    by (simp add: serializable_def sample_defs)
  have r: "reader sample_log = Some (map Inr [sample_info, sample_debug, sample_error])"
    by (simp add: sample_log_def)
  have n: "list_all (legacy_no_panic sample_ne [sample_info, sample_debug, sample_error])
     [expect_starting, expect_failed]"
    by (simp add: legacy_no_panic_def comparable_data_def sample_defs)
  have l: "fst (legacy_Match sample_ne (ContainSequence [expect_starting, expect_failed]) sample_log)
     = Inr True"
    by (simp add: legacy_Match_def ContainSequence_def sample_log_def legacy_indexOf_def
        legacy_contains_def sample_defs)
  note th = Match_in_order[where x = sample_sink and marshal = sample_marshal
      and lm = "ContainSequence [expect_starting, expect_failed]"
      and as = "[sample_info, sample_debug, sample_error]" and ne = sample_ne]
    Match_in_order[where x = sample_log and marshal = sample_marshal
      and lm = "ContainSequence [expect_starting, expect_failed]"
      and as = "[sample_info, sample_debug, sample_error]" and ne = sample_ne]
  from th a t s r n l go_comparison_sample
  show ?thesis by (auto simp add: ContainSequence_def simp del: cursor_match.simps)
qed


theorem Match_abnormal_end_counterexample:
  "\<not> contained sample_marshal sample_info expect_channel \<and>
   \<not> contained sample_marshal sample_debug expect_channel \<and>
   \<not> contained sample_marshal sample_error expect_channel \<and>
   fst (Match sample_marshal (ContainSequence [expect_channel]) sample_sink)
     = Inl (MarshalError ''json: unsupported type: chan int'') \<and>
   reader sample_tagged = Some [Inr (sample_info\<lparr>data := [(''tags'', GOther (Slice [1]))]\<rparr>)] \<and>
   \<not> legacy_contained sample_ne (sample_info\<lparr>data := [(''tags'', GOther (Slice [1]))]\<rparr>)
       expect_tagged \<and>
   fst (legacy_Match sample_ne (ContainSequence [expect_tagged]) sample_tagged) = Inl Uncomparable"
  by (simp add: contained_def Match_defs sample_defs legacy_contained_def legacy_Match_def
      sample_tagged_def expect_tagged_def legacy_indexOf_def legacy_contains_def)

section \<open>The entry builder\<close>

lemma apply_options_append:
  "apply_options (xs @ ys) e =
     (case apply_options xs e of Inl p \<Rightarrow> Inl p | Inr e' \<Rightarrow> apply_options ys e')"
  by (induction xs arbitrary: e) (simp_all split: sum.splits)

lemma copy_into_Cons: "copy_into d (p # m) = copy_into (AList.update (fst p) (snd p) d) m"
  by (simp add: copy_into_def)

lemma copy_into_Nil: "copy_into d [] = d"
  by (simp add: copy_into_def)

lemma map_of_copy_into:
  "map_of (copy_into d m) k = (case map_of (rev m) k of Some v \<Rightarrow> Some v | None \<Rightarrow> map_of d k)"
proof (induction m arbitrary: d)
  case Nil
  show ?case by (simp add: copy_into_Nil)
next
  case (Cons p m)
  show ?case
    by (cases "map_of (rev m) k")
       (simp_all add: copy_into_Cons Cons.IH update_conv' map_add_def)
qed

text \<open>The options keep the keys of the data map distinct, as a Go map does.\<close>

lemma Data_loop_distinct:
  "distinct (map fst (data e)) \<Longrightarrow> Data_loop kv e = Inr e' \<Longrightarrow> distinct (map fst (data e'))"
proof (induction kv e rule: Data_loop.induct)
  case (1 e)
  then show ?case by simp
next
  case (2 k e)
  then show ?case by (cases k) simp_all
next
  case (3 k v kv e)
  from "3.prems"(2) obtain key where k: "k = GString key" by (cases k) simp_all
  from "3.prems" have "Data_loop kv (e\<lparr>data := AList.update key v (data e)\<rparr>) = Inr e'"
    by (simp add: k)
  moreover from "3.prems"(1) have "distinct (map fst (data (e\<lparr>data := AList.update key v (data e)\<rparr>)))"
    by (simp add: distinct_update)
  ultimately show ?case using "3.IH"[OF k] by blast
qed

lemma Data_loop_key_values:
  "key_values kv = Some kvs \<Longrightarrow> Data_loop kv e = Inr (e\<lparr>data := copy_into (data e) kvs\<rparr>)"
proof (induction kv e arbitrary: kvs rule: Data_loop.induct)
  case (1 e)
  then show ?case by (simp add: copy_into_Nil)
next
  case (2 k e)
  then show ?case by simp
next
  case (3 k v kv e)
  from "3.prems" obtain key kvs' where k: "k = GString key" and kvs': "key_values kv = Some kvs'"
    and kvs: "kvs = (key, v) # kvs'"
    by (cases k) auto
  from "3.IH"[OF k kvs'] show ?case
    by (simp add: k kvs copy_into_Cons)
qed

lemma legacy_Data_loop_even:
  "even (length kv) \<Longrightarrow>
   legacy_Data_loop kv e = Inr (e\<lparr>data := copy_into (data e) (legacy_key_values kv)\<rparr>)"
proof (induction kv e rule: legacy_Data_loop.induct)
  case (1 e)
  then show ?case by (simp add: copy_into_Nil)
next
  case (2 k e)
  then show ?case by simp
next
  case (3 k v kv e)
  then show ?case by (simp add: copy_into_Cons)
qed

lemma even_length_legacy_pad: "even (length (legacy_pad kv))"
  by (simp add: legacy_pad_def) presburger

lemma map_of_rev_last: "kvs \<noteq> [] \<Longrightarrow> map_of (rev kvs) (fst (last kvs)) = Some (snd (last kvs))"
  by (cases kvs rule: rev_cases) simp_all

lemma Data_loop_bad_key:
  "i < length kv \<Longrightarrow> even i \<Longrightarrow> \<not> is_string (kv ! i) \<Longrightarrow>
   (\<forall>j < i. even j \<longrightarrow> is_string (kv ! j)) \<Longrightarrow>
   Data_loop kv e = Inl (InvalidDataKey (kv ! i))"
proof (induction kv e arbitrary: i rule: Data_loop.induct)
  case (1 e)
  then show ?case by simp
next
  case (2 k e)
  then have "i = 0" by simp
  with "2.prems" show ?case by (cases k) simp_all
next
  case (3 k v kv e)
  show ?case
  proof (cases "i = 0")
    case True
    with "3.prems" show ?thesis by (cases k) simp_all
  next
    case False
    with "3.prems"(2) obtain i' where i': "i = Suc (Suc i')"
      by (cases i; cases "i - 1") auto
    from "3.prems"(4) False have "is_string k" by (metis even_zero gr0I nth_Cons_0)
    then obtain key where k: "k = GString key" by (cases k) auto
    have "\<forall>j < i'. even j \<longrightarrow> is_string (kv ! j)"
    proof (intro allI impI)
      fix j assume "j < i'" "even j"
      with "3.prems"(4)[rule_format, of "Suc (Suc j)"] i' show "is_string (kv ! j)" by simp
    qed
    with "3.IH"[OF k, of i'] "3.prems" i' show ?thesis by (simp add: k)
  qed
qed

lemma key_values_snoc:
  "key_values (kv @ [x, v]) = Some kvs \<Longrightarrow> \<exists>k. x = GString k \<and> kvs \<noteq> [] \<and> last kvs = (k, v)"
proof (induction kv arbitrary: kvs rule: key_values.induct)
  case 1
  then show ?case by (cases x) auto
next
  case (2 k')
  then show ?case by (cases k') auto
next
  case (3 k' v' kv)
  from "3.prems" obtain key kvs' where k: "k' = GString key"
    and kvs': "key_values (kv @ [x, v]) = Some kvs'" and kvs: "kvs = (key, v') # kvs'"
    by (cases k') auto
  from "3.IH"[OF k kvs'] kvs show ?case by auto
qed

lemma legacy_key_values_snoc:
  "even (length kv) \<Longrightarrow>
   legacy_key_values (kv @ [k, v]) = legacy_key_values kv @ [(k, GString v)]"
  by (induction kv rule: legacy_key_values.induct) simp_all

lemma pad_odd: "odd (length kv) \<Longrightarrow> pad kv = butlast kv @ [last kv, GString []]"
proof -
  assume o: "odd (length kv)"
  then have "kv \<noteq> []" by auto
  then have "kv = butlast kv @ [last kv]" by simp
  then have "kv @ [GString []] = butlast kv @ [last kv, GString []]"
    by (metis append.assoc append_Cons append_Nil)
  moreover from o have "length kv mod 2 = 1" by presburger
  ultimately show ?thesis by (simp add: pad_def)
qed

lemma legacy_pad_odd:
  "odd (length kv) \<Longrightarrow> legacy_pad kv = butlast kv @ [last kv, []] \<and> even (length (butlast kv))"
proof -
  assume o: "odd (length kv)"
  then have "kv \<noteq> []" by auto
  then have "kv = butlast kv @ [last kv]" by simp
  then have "kv @ [[]] = butlast kv @ [last kv, []]"
    by (metis append.assoc append_Cons append_Nil)
  moreover from o have "length kv mod 2 = 1" by presburger
  moreover from o have "even (length (butlast kv))" by simp
  ultimately show ?thesis by (simp add: legacy_pad_def)
qed

lemma copy_into_last:
  "kvs \<noteq> [] \<Longrightarrow> map_of (copy_into d kvs) (fst (last kvs)) = Some (snd (last kvs))"
  by (simp add: map_of_copy_into map_of_rev_last)

text \<open>
  C8. \<^verbatim>\<open>Data\<close> pads an argument list of odd length with a trailing empty string
  and leaves one of even length as it is. When every argument at a key position is a
  string, applying the option returns normally and has written the consecutive
  key/value pairs into the data map in their order, a later pair overwriting an
  earlier one for the same key; after an odd list the last key maps to the empty
  string. In the older revision, whose arguments are all strings, this holds for
  every argument list.
\<close>

theorem Data_sets_pairs:
  "(odd (length kv) \<longrightarrow> pad kv = kv @ [GString []]) \<and>
   (even (length kv) \<longrightarrow> pad kv = kv) \<and>
   (\<forall>kvs. key_values (pad kv) = Some kvs \<longrightarrow>
      Data kv e = Inr (e\<lparr>data := copy_into (data e) kvs\<rparr>) \<and>
      (\<forall>k. map_of (copy_into (data e) kvs) k =
         (case map_of (rev kvs) k of Some v \<Rightarrow> Some v | None \<Rightarrow> map_of (data e) k)) \<and>
      (odd (length kv) \<longrightarrow>
         (\<exists>k. last kv = GString k \<and> map_of (copy_into (data e) kvs) k = Some (GString [])))) \<and>
   legacy_Data skv e =
     Inr (e\<lparr>data := copy_into (data e) (legacy_key_values (legacy_pad skv))\<rparr>) \<and>
   (\<forall>k. map_of (copy_into (data e) (legacy_key_values (legacy_pad skv))) k =
      (case map_of (rev (legacy_key_values (legacy_pad skv))) k of
         Some v \<Rightarrow> Some v | None \<Rightarrow> map_of (data e) k)) \<and>
   (odd (length skv) \<longrightarrow>
      legacy_pad skv = skv @ [[]] \<and>
      map_of (copy_into (data e) (legacy_key_values (legacy_pad skv))) (last skv)
        = Some (GString []))"
proof (intro conjI allI impI)
  show "pad kv = kv @ [GString []]" if "odd (length kv)"
  proof -
    from that have "length kv mod 2 = 1" by presburger
    then show ?thesis by (simp add: pad_def)
  qed
  show "pad kv = kv" if "even (length kv)"
    using that by (simp add: pad_def)
  show "Data kv e = Inr (e\<lparr>data := copy_into (data e) kvs\<rparr>)"
    if "key_values (pad kv) = Some kvs" for kvs
    using Data_loop_key_values[OF that] by (simp add: Data_def)
  show "map_of (copy_into (data e) kvs) k =
         (case map_of (rev kvs) k of Some v \<Rightarrow> Some v | None \<Rightarrow> map_of (data e) k)" for kvs k
    by (rule map_of_copy_into)
  show "\<exists>k. last kv = GString k \<and> map_of (copy_into (data e) kvs) k = Some (GString [])"
    if kv: "key_values (pad kv) = Some kvs" and o: "odd (length kv)" for kvs
  proof -
    from kv pad_odd[OF o] have "key_values (butlast kv @ [last kv, GString []]) = Some kvs"
      by simp
    from key_values_snoc[OF this] obtain k where k: "last kv = GString k" "kvs \<noteq> []"
      "last kvs = (k, GString [])" by auto
    from copy_into_last[OF k(2), of "data e"] k(3)
    have "map_of (copy_into (data e) kvs) k = Some (GString [])" by simp
    with k(1) show ?thesis by simp
  qed
  show "legacy_Data skv e =
     Inr (e\<lparr>data := copy_into (data e) (legacy_key_values (legacy_pad skv))\<rparr>)"
    using legacy_Data_loop_even[OF even_length_legacy_pad] by (simp add: legacy_Data_def)
  show "map_of (copy_into (data e) (legacy_key_values (legacy_pad skv))) k =
      (case map_of (rev (legacy_key_values (legacy_pad skv))) k of
         Some v \<Rightarrow> Some v | None \<Rightarrow> map_of (data e) k)" for k
    by (rule map_of_copy_into)
  show "legacy_pad skv = skv @ [[]]" if "odd (length skv)"
  proof -
    from that have "length skv mod 2 = 1" by presburger
    then show ?thesis by (simp add: legacy_pad_def)
  qed
  show "map_of (copy_into (data e) (legacy_key_values (legacy_pad skv))) (last skv)
        = Some (GString [])" if o: "odd (length skv)"
  proof -
    from legacy_pad_odd[OF o] have p: "legacy_pad skv = butlast skv @ [last skv, []]"
      and ev: "even (length (butlast skv))" by auto
    have kvs: "legacy_key_values (legacy_pad skv)
        = legacy_key_values (butlast skv) @ [(last skv, GString [])]"
      unfolding p by (rule legacy_key_values_snoc[OF ev])
    show ?thesis
      using copy_into_last[of "legacy_key_values (legacy_pad skv)" "data e"]
      by (simp add: kvs)
  qed
qed

theorem Data_sets_pairs_witness:
  "odd (length [GString ''event'', GString ''done'', GString ''task'']) \<and>
   pad [GString ''event'', GString ''done'', GString ''task'' :: sample govalue]
     = [GString ''event'', GString ''done'', GString ''task'', GString []] \<and>
   key_values (pad [GString ''event'', GString ''done'', GString ''task'' :: sample govalue])
     = Some [(''event'', GString ''done''), (''task'', GString [])] \<and>
   Data [GString ''event'', GString ''done'', GString ''task''] expect_starting
     = Inr (expect_starting\<lparr>data := [(''event'', GString ''done''), (''task'', GString [])]\<rparr>) \<and>
   even (length [''a'', ''1'', ''a'', ''2'']) \<and>
   legacy_Data [''a'', ''1'', ''a'', ''2''] expect_starting
     = Inr (expect_starting\<lparr>data := [(''event'', GString ''starting''), (''a'', GString ''2'')]\<rparr>) \<and>
   odd (length [''k'']) \<and>
   legacy_Data [''k''] expect_starting
     = Inr (expect_starting\<lparr>data := [(''event'', GString ''starting''), (''k'', GString [])]\<rparr>)"
  using Data_sets_pairs[of "[GString ''event'', GString ''done'', GString ''task'']"
      expect_starting "[''a'', ''1'', ''a'', ''2'']"]
    Data_sets_pairs[of "[GString ''event'', GString ''done'', GString ''task'']"
      expect_starting "[''k'']"]
  by (simp add: pad_def legacy_pad_def copy_into_def expect_failed_def expect_starting_def)

theorem Data_non_string_key_counterexample:
  "even (length [GOther (Number 5), GString ''x'']) \<and>
   Data [GOther (Number 5), GString ''x''] expect_starting
     = Inl (InvalidDataKey (GOther (Number 5))) \<and>
   odd (length [GOther (Boolean True)]) \<and>
   Data [GOther (Boolean True)] expect_starting = Inl (InvalidDataKey (GOther (Boolean True)))"
  by (simp add: Data_def pad_def)

lemma Data_first_bad_key:
  assumes "i < length kv" and "even i" and "\<not> is_string (kv ! i)"
    and "\<forall>j < i. even j \<longrightarrow> is_string (kv ! j)"
  shows "Data kv e = Inl (InvalidDataKey (kv ! i))"
proof -
  have len: "i < length (pad kv)" using assms(1) by (simp add: pad_def)
  have nth: "pad kv ! j = kv ! j" if "j \<le> i" for j
    using that assms(1) by (simp add: pad_def nth_append)
  have "Data_loop (pad kv) e = Inl (InvalidDataKey (pad kv ! i))"
  proof (rule Data_loop_bad_key[OF len assms(2)])
    show "\<not> is_string (pad kv ! i)" using assms(3) nth by simp
    show "\<forall>j<i. even j \<longrightarrow> is_string (pad kv ! j)" using assms(4) nth by simp
  qed
  then show ?thesis using nth by (simp add: Data_def)
qed

lemma first_bad_key_exists:
  assumes "even i" and "\<not> is_string (kv ! i)"
  shows "\<exists>j \<le> i. even j \<and> \<not> is_string (kv ! j) \<and> (\<forall>k < j. even k \<longrightarrow> is_string (kv ! k))"
proof -
  let ?P = "\<lambda>j. even j \<and> \<not> is_string (kv ! j)"
  from assms have p: "?P i" by simp
  have "?P (LEAST j. ?P j)" using p by (rule LeastI)
  moreover have "(LEAST j. ?P j) \<le> i" using p by (rule Least_le)
  moreover have "\<forall>k < (LEAST j. ?P j). even k \<longrightarrow> is_string (kv ! k)"
    using not_less_Least by blast
  ultimately show ?thesis by blast
qed

text \<open>
  C10. In the newer revision, when an argument of \<^verbatim>\<open>Data\<close> at a key position
  (an even index) is not a string, applying the option to any entry panics with the
  error made from the first such argument, and does not return. So does every builder
  (\<^verbatim>\<open>Entry\<close>, \<^verbatim>\<open>Info\<close>, \<^verbatim>\<open>Debug\<close>, \<^verbatim>\<open>Error\<close>, \<^verbatim>\<open>Fatal\<close>) that
  is given the option after options that return normally.
\<close>

theorem Data_non_string_key_panics:
  assumes "i < length kv" and "even i" and "\<not> is_string (kv ! i)"
  shows "\<exists>j. j \<le> i \<and> even j \<and> \<not> is_string (kv ! j) \<and>
         is_panic (InvalidDataKey (kv ! j)) \<and>
         (\<forall>e. Data kv e = Inl (InvalidDataKey (kv ! j))) \<and>
         (\<forall>logLevel pre post e'. Entry logLevel pre = Inr e' \<longrightarrow>
            Entry logLevel (pre @ Data kv # post) = Inl (InvalidDataKey (kv ! j))) \<and>
         (\<forall>pre post e'. Entry INFO pre = Inr e' \<longrightarrow>
            Info (pre @ Data kv # post) = Inl (InvalidDataKey (kv ! j))) \<and>
         (\<forall>pre post e'. Entry DEBUG pre = Inr e' \<longrightarrow>
            Debug (pre @ Data kv # post) = Inl (InvalidDataKey (kv ! j))) \<and>
         (\<forall>err pre post e'. Entry ERROR pre = Inr e' \<longrightarrow>
            Error err (pre @ Data kv # post) = Inl (InvalidDataKey (kv ! j))) \<and>
         (\<forall>err pre post e'. Entry FATAL pre = Inr e' \<longrightarrow>
            Fatal err (pre @ Data kv # post) = Inl (InvalidDataKey (kv ! j)))"
proof -
  from first_bad_key_exists[OF assms(2,3)] obtain j where j: "j \<le> i" "even j"
    "\<not> is_string (kv ! j)" "\<forall>k < j. even k \<longrightarrow> is_string (kv ! k)" by blast
  from j(1) assms(1) have jl: "j < length kv" by simp
  have d: "Data kv e0 = Inl (InvalidDataKey (kv ! j))" for e0
    by (rule Data_first_bad_key[OF jl j(2,3,4)])
  have ent: "Entry logLevel (pre @ Data kv # post) = Inl (InvalidDataKey (kv ! j))"
    if "Entry logLevel pre = Inr e'" for logLevel pre post e'
    using that by (simp add: Entry_def apply_options_append d)
  have ent': "Entry logLevel ((pre @ Data kv # post) @ extra) = Inl (InvalidDataKey (kv ! j))"
    if "Entry logLevel pre = Inr e'" for logLevel pre post e' extra
    using ent[OF that, of "post @ extra"] by simp
  have "is_panic (InvalidDataKey (kv ! j)) \<and>
         (\<forall>e. Data kv e = Inl (InvalidDataKey (kv ! j))) \<and>
         (\<forall>logLevel pre post e'. Entry logLevel pre = Inr e' \<longrightarrow>
            Entry logLevel (pre @ Data kv # post) = Inl (InvalidDataKey (kv ! j))) \<and>
         (\<forall>pre post e'. Entry INFO pre = Inr e' \<longrightarrow>
            Info (pre @ Data kv # post) = Inl (InvalidDataKey (kv ! j))) \<and>
         (\<forall>pre post e'. Entry DEBUG pre = Inr e' \<longrightarrow>
            Debug (pre @ Data kv # post) = Inl (InvalidDataKey (kv ! j))) \<and>
         (\<forall>err pre post e'. Entry ERROR pre = Inr e' \<longrightarrow>
            Error err (pre @ Data kv # post) = Inl (InvalidDataKey (kv ! j))) \<and>
         (\<forall>err pre post e'. Entry FATAL pre = Inr e' \<longrightarrow>
            Fatal err (pre @ Data kv # post) = Inl (InvalidDataKey (kv ! j)))"
    using d ent ent'
    by (auto simp: is_panic_def Info_def Debug_def Error_def Fatal_def split: option.splits)
  with j(1,2,3) show ?thesis by blast
qed

theorem Data_non_string_key_panics_witness:
  "2 < length [GString ''a'', GString ''b'', GOther (Number 7), GString ''c''] \<and>
   even (2::nat) \<and>
   \<not> is_string ([GString ''a'', GString ''b'', GOther (Number 7), GString ''c''] ! 2) \<and>
   Data [GString ''a'', GString ''b'', GOther (Number 7), GString ''c''] expect_starting
     = Inl (InvalidDataKey (GOther (Number 7))) \<and>
   Info [Source ''logger'', Data [GString ''a'', GString ''b'', GOther (Number 7), GString ''c'']]
     = Inl (InvalidDataKey (GOther (Number 7))) \<and>
   Fatal None [Data [GString ''a'', GString ''b'', GOther (Number 7), GString ''c''],
       Message ''m'']
     = Inl (InvalidDataKey (GOther (Number 7)))"
proof -
  let ?kv = "[GString ''a'', GString ''b'', GOther (Number 7), GString ''c''] :: sample govalue list"
  have h: "2 < length ?kv" "even (2::nat)" "\<not> is_string (?kv ! 2)"
    by simp_all
  have s: "Entry INFO [Source ''logger''] = Inr
      (\<lparr>timestamp = [], source = ''logger'', message = [], log_level = INFO, data = []\<rparr>
         :: sample logEntry)"
    by (simp add: Entry_def Source_def)
  have f: "Entry FATAL [] = Inr
      (\<lparr>timestamp = [], source = [], message = [], log_level = FATAL, data = []\<rparr>
         :: sample logEntry)"
    by (simp add: Entry_def)
  from Data_non_string_key_panics[OF h] obtain j where j: "j \<le> 2" "even j" "\<not> is_string (?kv ! j)"
    and d: "\<forall>e. Data ?kv e = Inl (InvalidDataKey (?kv ! j))"
    and i: "\<forall>pre post e'. Entry INFO pre = Inr e' \<longrightarrow>
            Info (pre @ Data ?kv # post) = Inl (InvalidDataKey (?kv ! j))"
    and fa: "\<forall>err pre post e'. Entry FATAL pre = Inr e' \<longrightarrow>
            Fatal err (pre @ Data ?kv # post) = Inl (InvalidDataKey (?kv ! j))"
    by blast
  from j have j2: "j = 2" by (cases "j = 0"; cases "j = 1") auto
  from d have "Data ?kv expect_starting = Inl (InvalidDataKey (?kv ! j))" by blast
  moreover from i s have "Info ([Source ''logger''] @ Data ?kv # []) = Inl (InvalidDataKey (?kv ! j))"
    by blast
  moreover from fa f have "Fatal None ([] @ Data ?kv # [Message ''m'']) = Inl (InvalidDataKey (?kv ! j))"
    by blast
  ultimately show ?thesis using h by (simp add: j2)
qed

text \<open>
  The newer \<^verbatim>\<open>Error\<close> and \<^verbatim>\<open>Fatal\<close>: a nil error adds no option, so the entry
  is the one the caller's options make; an error that is not nil adds one option
  after the caller's, which writes the error's text under the key \<^verbatim>\<open>error\<close>.
\<close>

lemma Error_newer:
  "Error None options = Entry ERROR options \<and>
   Fatal None options = Entry FATAL options \<and>
   (Error None [] :: 'o failure + 'o logEntry) =
     Inr \<lparr>timestamp = [], source = [], message = [], log_level = ERROR, data = []\<rparr> \<and>
   (Entry ERROR options = Inr e \<longrightarrow>
      Error (Some s) options = Inr (e\<lparr>data := AList.update ''error'' (GString s) (data e)\<rparr>)) \<and>
   (Entry FATAL options = Inr e \<longrightarrow>
      Fatal (Some s) options = Inr (e\<lparr>data := AList.update ''error'' (GString s) (data e)\<rparr>))"
  by (simp add: Error_def Fatal_def Entry_def apply_options_append Data_def pad_def)

text \<open>
  C3. The older \<^verbatim>\<open>Error\<close> on a nil error: whatever the options are, the call
  panics with a nil dereference, where the newer \<^verbatim>\<open>Error\<close> returns the entry of
  the caller's options, without a key \<^verbatim>\<open>error\<close>.
\<close>

theorem legacy_Error_nil:
  "legacy_Error None options = Inl NilDereference"
  by (simp add: legacy_Error_def)

section \<open>Sources, decoding and repeated matches\<close>

lemma decode_loop_malformed:
  "decode_loop (map Inr pre @ Inl err # post) acc = (Some err, acc @ pre, post)"
  by (induction pre arbitrary: acc) simp_all

lemma first_malformed:
  "Inl e \<in> set rs \<Longrightarrow> \<exists>pre err post. rs = map Inr pre @ Inl err # post"
proof (induction rs)
  case Nil
  then show ?case by simp
next
  case (Cons r rs)
  show ?case
  proof (cases r)
    case (Inl err)
    then have "r # rs = map Inr [] @ Inl err # rs" by simp
    then show ?thesis by blast
  next
    case (Inr entry)
    with Cons.prems have "Inl e \<in> set rs" by auto
    from Cons.IH[OF this] obtain pre err post where "rs = map Inr pre @ Inl err # post"
      by blast
    with Inr have "r # rs = map Inr (entry # pre) @ Inl err # post" by simp
    then show ?thesis by blast
  qed
qed

lemma match_records_malformed:
  "match_records marshal lm (map Inr pre @ Inl err # post) =
     (Inl (DecodeError err), lm\<lparr>actual := pre\<rparr>, post)"
  by (simp add: match_records_def decode_loop_malformed)

text \<open>
  C5. On a value that \<^verbatim>\<open>Match\<close> accepts: when a record is malformed, the result is
  the decode error of the first malformed record, whatever the expected entries are
  and whatever records precede or follow it (the matcher keeps the entries decoded
  before it); when no record is malformed, every record is decoded, the result is that
  of the search over all of them, and it is no decode error.
\<close>

theorem Match_decode_error:
  assumes "accepted_records x = Some rs"
  shows "(\<forall>pre err post. rs = map Inr pre @ Inl err # post \<longrightarrow>
            fst (Match marshal lm x) = Inl (DecodeError err) \<and>
            actual (fst (snd (Match marshal lm x))) = pre) \<and>
         ((\<exists>e. Inl e \<in> set rs) \<longrightarrow>
            (\<exists>err. Inl err \<in> set rs \<and> fst (Match marshal lm x) = Inl (DecodeError err))) \<and>
         (\<forall>as. rs = map Inr as \<longrightarrow>
            fst (Match marshal lm x) = match_loop marshal (expected lm) as \<and>
            actual (fst (snd (Match marshal lm x))) = as \<and>
            (\<forall>msg. fst (Match marshal lm x) \<noteq> Inl (DecodeError msg)))"
proof -
  note m = Match_accepted[OF assms, of marshal lm]
  have a: "fst (Match marshal lm x) = Inl (DecodeError err) \<and>
           actual (fst (snd (Match marshal lm x))) = pre"
    if "rs = map Inr pre @ Inl err # post" for pre err post
    using m that by (simp add: match_records_malformed)
  have b: "\<exists>err. Inl err \<in> set rs \<and> fst (Match marshal lm x) = Inl (DecodeError err)"
    if "Inl e \<in> set rs" for e
  proof -
    from first_malformed[OF that] obtain pre err post where d: "rs = map Inr pre @ Inl err # post"
      by blast
    then have "Inl err \<in> set rs" by simp
    with a[OF d] show ?thesis by blast
  qed
  have c: "fst (Match marshal lm x) = match_loop marshal (expected lm) as \<and>
           actual (fst (snd (Match marshal lm x))) = as \<and>
           (\<forall>msg. fst (Match marshal lm x) \<noteq> Inl (DecodeError msg))"
    if "rs = map Inr as" for as
  proof -
    from m that have r: "fst (Match marshal lm x) = match_loop marshal (expected lm) as"
      and l: "actual (fst (snd (Match marshal lm x))) = as"
      by (simp_all add: match_records_clean)
    have "match_loop marshal (expected lm) as \<noteq> Inl (DecodeError msg)" for msg
      using match_loop_error[of marshal "expected lm" as "DecodeError msg"] by auto
    with r l show ?thesis by simp
  qed
  from a b c show ?thesis by blast
qed

theorem Match_decode_error_witness:
  "accepted_records sample_broken =
     Some (map Inr [sample_info] @
           Inl ''invalid character 'x' looking for beginning of value'' # [Inr sample_error]) \<and>
   fst (Match sample_marshal (ContainSequence [expect_starting]) sample_broken) =
     Inl (DecodeError ''invalid character 'x' looking for beginning of value'') \<and>
   actual (fst (snd (Match sample_marshal (ContainSequence [expect_starting]) sample_broken)))
     = [sample_info] \<and>
   accepted_records sample_sink = Some (map Inr [sample_info, sample_debug, sample_error]) \<and>
   fst (Match sample_marshal (ContainSequence [expect_starting]) sample_sink) = Inr True \<and>
   actual (fst (snd (Match sample_marshal (ContainSequence [expect_starting]) sample_sink)))
     = [sample_info, sample_debug, sample_error]"
proof -
  have a: "accepted_records sample_broken =
     Some (map Inr [sample_info] @
           Inl ''invalid character 'x' looking for beginning of value'' # [Inr sample_error])"
    by (simp add: accepted_records_def sample_broken_def)
  have b: "accepted_records sample_sink = Some (map Inr [sample_info, sample_debug, sample_error])"
    by (simp add: accepted_records_def sample_sink_def)
  have t: "match_loop sample_marshal [expect_starting] [sample_info, sample_debug, sample_error]
      = Inr True"
    by (simp add: Match_defs sample_defs)
  from Match_decode_error[OF a, of sample_marshal "ContainSequence [expect_starting]"]
  have x: "fst (Match sample_marshal (ContainSequence [expect_starting]) sample_broken) =
      Inl (DecodeError ''invalid character 'x' looking for beginning of value'') \<and>
    actual (fst (snd (Match sample_marshal (ContainSequence [expect_starting]) sample_broken)))
      = [sample_info]"
    by blast
  from Match_decode_error[OF b, of sample_marshal "ContainSequence [expect_starting]"]
  have y: "fst (Match sample_marshal (ContainSequence [expect_starting]) sample_sink) =
      match_loop sample_marshal (expected (ContainSequence [expect_starting]))
        [sample_info, sample_debug, sample_error] \<and>
    actual (fst (snd (Match sample_marshal (ContainSequence [expect_starting]) sample_sink)))
      = [sample_info, sample_debug, sample_error]"
    by blast
  from a b x y t show ?thesis by (simp add: ContainSequence_def)
qed

text \<open>
  Only the expected entries of the matcher bear on the result; \<^verbatim>\<open>Match\<close> leaves
  them as they are, and leaves a value alone that it reads through
  \<^verbatim>\<open>Buffer().Contents()\<close> or \<^verbatim>\<open>Contents()\<close>.
\<close>

lemma Match_expected_only:
  "expected lm' = expected lm \<Longrightarrow> fst (Match marshal lm' x) = fst (Match marshal lm x)"
  by (simp add: Match_def match_records_def split: option.splits prod.splits)

lemma Match_keeps_expected:
  "expected (fst (snd (Match marshal lm x))) = expected lm"
  by (simp add: Match_def match_records_def split: option.splits prod.splits)

lemma Match_keeps_buffer:
  "bufferProvider x \<noteq> None \<or> contentsProvider x \<noteq> None \<Longrightarrow>
   snd (snd (Match marshal lm x)) = x"
  by (auto simp: Match_def split: option.splits prod.splits)

text \<open>
  The boolean of a match does not depend on the orders in which the tests range over
  the expected data: a test that ends with an error belongs to an expectation that no
  record contains.
\<close>

lemma contained_reorder:
  "set d = set (data e) \<Longrightarrow> contained marshal a (e\<lparr>data := d\<rparr>) = contained marshal a e"
  by (simp add: contained_def logEntry_contains_def data_contains_True_iff)

lemma contains_error_never_contained:
  assumes "logEntry_contains marshal a (e\<lparr>data := d\<rparr>) = Inl err" and "set d = set (data e)"
  shows "\<not> contained marshal a' e"
proof
  assume c: "contained marshal a' e"
  from contains_error[OF assms(1)] obtain p msg where p: "p \<in> set d" "marshal (snd p) = Inl msg"
    by auto
  with assms(2) have pe: "p \<in> set (data e)" by simp
  from c have "logEntryData_contains marshal (data a') (data e) = Inr True"
    by (simp add: contained_def logEntry_contains_def split: if_splits)
  with pe obtain av where "same_serialization marshal av (snd p)"
    unfolding data_contains_True_iff by blast
  with p(2) show False by (simp add: same_serialization_def)
qed

lemma indexOf_loop_ord_first_from:
  assumes ro: "\<forall>i. set (ordj i (data e)) = set (data e)"
  shows "case indexOf_loop_ord marshal ordj i (drop c as) e of
           Inl err \<Rightarrow> first_from (\<lambda>a. contained marshal a e) as c = None
         | Inr r \<Rightarrow> r = map_option (\<lambda>j. i + (j - c)) (first_from (\<lambda>a. contained marshal a e) as c)"
proof (induction "\<lambda>a. contained marshal a e" as c arbitrary: i rule: first_from.induct)
  case (1 as c)
  show ?case
  proof (cases "length as \<le> c")
    case True
    then show ?thesis by (simp add: first_from.simps[of _ as c])
  next
    case False
    then have d: "drop c as = as ! c # drop (c + 1) as"
      by (simp add: Cons_nth_drop_Suc)
    from ro have s: "set (ordj i (data e)) = set (data e)" by simp
    show ?thesis
    proof (cases "logEntry_contains marshal (as ! c) (e\<lparr>data := ordj i (data e)\<rparr>)")
      case (Inl err)
      have "first_from (\<lambda>a. contained marshal a e) as c = None"
      proof (cases "first_from (\<lambda>a. contained marshal a e) as c")
        case None
        then show ?thesis .
      next
        case (Some j)
        from first_from_Some[OF Some] contains_error_never_contained[OF Inl s]
        show ?thesis by blast
      qed
      with Inl show ?thesis by (simp add: d)
    next
      case (Inr b)
      then have cb: "contained marshal (as ! c) e = b"
        using contained_reorder[OF s, of marshal "as ! c"] by (simp add: contained_def)
      show ?thesis
      proof (cases b)
        case True
        with Inr cb False show ?thesis
          by (simp add: d first_from.simps[of _ as c])
      next
        case nb: False
        with cb have nP: "\<not> contained marshal (as ! c) e" by simp
        have eq: "map_option (\<lambda>j. Suc i + (j - (c + 1))) (first_from (\<lambda>a. contained marshal a e) as (c + 1))
            = map_option (\<lambda>j. i + (j - c)) (first_from (\<lambda>a. contained marshal a e) as (c + 1))"
        proof (cases "first_from (\<lambda>a. contained marshal a e) as (c + 1)")
          case None
          then show ?thesis by simp
        next
          case (Some j)
          from first_from_Some[OF Some] have "c + 1 \<le> j" by simp
          with Some show ?thesis by simp
        qed
        have ff: "first_from (\<lambda>a. contained marshal a e) as c
            = first_from (\<lambda>a. contained marshal a e) as (c + 1)"
          using False nP by (simp add: first_from.simps[of _ as c])
        from "1.hyps"[OF False nP, of "Suc i"] eq
        have "case indexOf_loop_ord marshal ordj (Suc i) (drop (c + 1) as) e of
           Inl err \<Rightarrow> first_from (\<lambda>a. contained marshal a e) as c = None
         | Inr r \<Rightarrow> r = map_option (\<lambda>j. i + (j - c)) (first_from (\<lambda>a. contained marshal a e) as c)"
          unfolding ff by (simp split: sum.splits)
        with Inr nb show ?thesis by (simp add: d)
      qed
    qed
  qed
qed

lemma match_loop_ord_success:
  assumes "reordering ord"
  shows "success (match_loop_ord marshal ord j es (drop c as)) =
         cursor_match (contained marshal) as c es"
proof (induction es arbitrary: j c)
  case Nil
  show ?case by (simp add: success_def)
next
  case (Cons e es)
  from assms have ro: "\<forall>i. set (ord j i (data e)) = set (data e)"
    by (simp add: reordering_def)
  note ix = indexOf_loop_ord_first_from[where ordj = "ord j" and e = e and marshal = marshal
      and i = 0 and c = c and as = as, OF ro]
  show ?case
  proof (cases "indexOf_loop_ord marshal (ord j) 0 (drop c as) e")
    case (Inl err)
    with ix show ?thesis by (simp add: success_def)
  next
    case (Inr r)
    with ix have r: "r = map_option (\<lambda>j. j - c) (first_from (\<lambda>a. contained marshal a e) as c)"
      by simp
    show ?thesis
    proof (cases "first_from (\<lambda>a. contained marshal a e) as c")
      case None
      with Inr r show ?thesis by (simp add: success_def)
    next
      case (Some k)
      from first_from_Some[OF Some] have "c \<le> k" by simp
      then have "drop (k - c + 1) (drop c as) = drop (k + 1) as" by simp
      with Cons.IH[of "Suc j" "k + 1"] Inr r Some show ?thesis by simp
    qed
  qed
qed

lemma match_loop_ord_list_order:
  "match_loop_ord marshal list_order j es as = match_loop marshal es as"
proof -
  have i: "indexOf_loop_ord marshal (list_order j) i as e = indexOf_loop marshal i as e" for i j as e
    by (induction as arbitrary: i) (simp_all add: list_order_def split: sum.split)
  show ?thesis
    by (induction es arbitrary: j as)
       (simp_all add: i logEntries_indexOf_def split: sum.split option.split)
qed

lemma match_records_ord_list_order:
  "match_records_ord marshal list_order lm rs = match_records marshal lm rs"
  by (simp add: match_records_ord_def match_records_def match_loop_ord_list_order
      split: prod.split option.split)

lemma Match_ord_list_order: "Match_ord marshal list_order lm x = Match marshal lm x"
  by (simp add: Match_ord_def Match_def match_records_ord_list_order
      split: prod.split option.split)

lemma all_decoded: "\<forall>r \<in> set rs. \<forall>e. r \<noteq> Inl e \<Longrightarrow> \<exists>as. rs = map Inr as"
proof (induction rs)
  case Nil
  then show ?case by simp
next
  case (Cons r rs)
  from Cons.prems have "\<forall>r \<in> set rs. \<forall>e. r \<noteq> Inl e" by simp
  from Cons.IH[OF this] obtain as where as: "rs = map Inr as" by blast
  from Cons.prems obtain a where "r = Inr a" by (cases r) auto
  with as have "r # rs = map Inr (a # as)" by simp
  then show ?case by (rule exI)
qed

lemma match_records_ord_clean:
  "match_records_ord marshal ord lm (map Inr as) =
     (match_loop_ord marshal ord 0 (expected lm) as, lm\<lparr>actual := as\<rparr>, [])"
  by (simp add: match_records_ord_def decode_loop_clean)

lemma match_records_ord_malformed:
  "match_records_ord marshal ord lm (map Inr pre @ Inl err # post) =
     (Inl (DecodeError err), lm\<lparr>actual := pre\<rparr>, post)"
  by (simp add: match_records_ord_def decode_loop_malformed)

lemma Match_ord_buffer:
  assumes "bufferProvider x = Some rs \<or> (bufferProvider x = None \<and> contentsProvider x = Some rs)"
  shows "Match_ord marshal ord lm x =
     (fst (match_records_ord marshal ord lm rs), fst (snd (match_records_ord marshal ord lm rs)), x)"
  using assms by (auto simp: Match_ord_def split: prod.splits option.splits)


text \<open>
  C6. On a value read through \<^verbatim>\<open>Buffer().Contents()\<close> or \<^verbatim>\<open>Contents()\<close>, whose
  contents are \<open>rs\<close>: a match leaves the value as it was, and a second match of the
  same expected entries on it returns the same boolean as the first, whatever the
  orders in which the two range over the expected data. Each of the two decodes \<open>rs\<close>
  from its first record on: when all records decode, the matcher holds all of them
  afterwards and the boolean is that of the cursor algorithm started at 0; when a
  record is malformed, both return its decode error.
\<close>

theorem Match_buffer_idempotent:
  assumes "bufferProvider x = Some rs \<or> (bufferProvider x = None \<and> contentsProvider x = Some rs)"
    and "reordering ord1" and "reordering ord2" and "expected lm' = expected lm"
  shows "snd (snd (Match_ord marshal ord1 lm x)) = x \<and>
         success (fst (Match_ord marshal ord2 lm' (snd (snd (Match_ord marshal ord1 lm x))))) =
           success (fst (Match_ord marshal ord1 lm x)) \<and>
         actual (fst (snd (Match_ord marshal ord1 lm x))) = fst (snd (decode_loop rs [])) \<and>
         actual (fst (snd (Match_ord marshal ord2 lm' x))) = fst (snd (decode_loop rs [])) \<and>
         (\<forall>as. rs = map Inr as \<longrightarrow>
            fst (snd (decode_loop rs [])) = as \<and>
            success (fst (Match_ord marshal ord1 lm x)) =
              cursor_match (contained marshal) as 0 (expected lm) \<and>
            success (fst (Match_ord marshal ord2 lm' x)) =
              cursor_match (contained marshal) as 0 (expected lm)) \<and>
         (\<forall>pre err post. rs = map Inr pre @ Inl err # post \<longrightarrow>
            fst (Match_ord marshal ord1 lm x) = Inl (DecodeError err) \<and>
            fst (Match_ord marshal ord2 lm' x) = Inl (DecodeError err)) \<and>
         Match_ord marshal list_order lm x = Match marshal lm x"
proof -
  note m1 = Match_ord_buffer[OF assms(1), of marshal ord1 lm]
  note m2 = Match_ord_buffer[OF assms(1), of marshal ord2 lm']
  have clean: "success (fst (Match_ord marshal ord1 lm x)) =
              cursor_match (contained marshal) as 0 (expected lm) \<and>
            success (fst (Match_ord marshal ord2 lm' x)) =
              cursor_match (contained marshal) as 0 (expected lm) \<and>
            fst (snd (decode_loop rs [])) = as"
    if "rs = map Inr as" for as
    using that match_loop_ord_success[OF assms(2), of marshal 0 "expected lm" 0 as]
      match_loop_ord_success[OF assms(3), of marshal 0 "expected lm" 0 as] assms(4)
    by (simp add: m1 m2 match_records_ord_clean decode_loop_clean)
  have bad: "fst (Match_ord marshal ord1 lm x) = Inl (DecodeError err) \<and>
            fst (Match_ord marshal ord2 lm' x) = Inl (DecodeError err)"
    if "rs = map Inr pre @ Inl err # post" for pre err post
    using that by (simp add: m1 m2 match_records_ord_malformed)
  have same: "success (fst (Match_ord marshal ord2 lm' x)) = success (fst (Match_ord marshal ord1 lm x))"
  proof (cases "\<exists>e. Inl e \<in> set rs")
    case True
    then obtain e where "Inl e \<in> set rs" by blast
    from first_malformed[OF this] obtain pre err post where "rs = map Inr pre @ Inl err # post"
      by blast
    from bad[OF this] show ?thesis by simp
  next
    case False
    then have "\<forall>r \<in> set rs. \<forall>e. r \<noteq> Inl e" by blast
    from all_decoded[OF this] obtain as where "rs = map Inr as" by blast
    from clean[OF this] show ?thesis by simp
  qed
  have a1: "actual (fst (snd (Match_ord marshal ord1 lm x))) = fst (snd (decode_loop rs []))"
    by (simp add: m1 match_records_ord_def split: prod.splits option.splits)
  have a2: "actual (fst (snd (Match_ord marshal ord2 lm' x))) = fst (snd (decode_loop rs []))"
    by (simp add: m2 match_records_ord_def split: prod.splits option.splits)
  have k: "snd (snd (Match_ord marshal ord1 lm x)) = x" by (simp add: m1)
  from k same a1 a2 clean bad Match_ord_list_order[of marshal lm x] show ?thesis
    by simp
qed

theorem Match_buffer_idempotent_witness:
  "bufferProvider sample_sink = Some [Inr sample_info, Inr sample_debug, Inr sample_error] \<and>
   reordering (list_order :: sample range_order) \<and>
   reordering (reversed_order :: sample range_order) \<and>
   snd (snd (Match_ord sample_marshal list_order
               (ContainSequence [expect_starting, expect_failed]) sample_sink)) = sample_sink \<and>
   fst (Match_ord sample_marshal list_order
          (ContainSequence [expect_starting, expect_failed]) sample_sink) = Inr True \<and>
   fst (Match_ord sample_marshal reversed_order
          (ContainSequence [expect_starting, expect_failed]) sample_sink) = Inr True \<and>
   success (fst (Match_ord sample_marshal reversed_order
          (ContainSequence [expect_starting, expect_failed])
          (snd (snd (Match_ord sample_marshal list_order
               (ContainSequence [expect_starting, expect_failed]) sample_sink))))) \<and>
   actual (fst (snd (Match_ord sample_marshal reversed_order
          (ContainSequence [expect_starting, expect_failed]) sample_sink)))
     = [sample_info, sample_debug, sample_error] \<and>
   cursor_match (contained sample_marshal) [sample_info, sample_debug, sample_error] 0
     [expect_starting, expect_failed] \<and>
   bufferProvider (sample_sink\<lparr>bufferProvider := Some [Inr sample_info, Inl ''unexpected EOF'']\<rparr>)
     = Some (map Inr [sample_info] @ Inl ''unexpected EOF'' # []) \<and>
   fst (Match_ord sample_marshal reversed_order
          (ContainSequence [expect_starting, expect_failed])
          (sample_sink\<lparr>bufferProvider := Some [Inr sample_info, Inl ''unexpected EOF'']\<rparr>))
     = Inl (DecodeError ''unexpected EOF'')"
proof -
  let ?lm = "ContainSequence [expect_starting, expect_failed] :: sample logMatcher"
  let ?cut = "sample_sink\<lparr>bufferProvider := Some [Inr sample_info, Inl ''unexpected EOF'']\<rparr>"
  have bc: "bufferProvider ?cut = Some (map Inr [sample_info] @ Inl ''unexpected EOF'' # [])"
    by simp
  then have bc': "bufferProvider ?cut = Some (map Inr [sample_info] @ Inl ''unexpected EOF'' # [])
      \<or> (bufferProvider ?cut = None \<and>
          contentsProvider ?cut = Some (map Inr [sample_info] @ Inl ''unexpected EOF'' # []))"
    by simp
  have b: "bufferProvider sample_sink = Some [Inr sample_info, Inr sample_debug, Inr sample_error]"
    by (simp add: sample_sink_def)
  then have b': "bufferProvider sample_sink = Some [Inr sample_info, Inr sample_debug, Inr sample_error]
      \<or> (bufferProvider sample_sink = None \<and>
          contentsProvider sample_sink = Some [Inr sample_info, Inr sample_debug, Inr sample_error])"
    by simp
  have r1: "reordering (list_order :: sample range_order)"
    by (simp add: reordering_def list_order_def)
  have r2: "reordering (reversed_order :: sample range_order)"
    by (simp add: reordering_def reversed_order_def)
  have t1: "fst (Match_ord sample_marshal list_order ?lm sample_sink) = Inr True"
    by (simp add: Match_ord_def match_records_ord_def list_order_def logEntry_contains_def
        ContainSequence_def sample_defs)
  have t2: "fst (Match_ord sample_marshal reversed_order ?lm sample_sink) = Inr True"
    by (simp add: Match_ord_def match_records_ord_def reversed_order_def logEntry_contains_def
        ContainSequence_def sample_defs)
  have d: "[Inr sample_info, Inr sample_debug, Inr sample_error]
      = map Inr [sample_info, sample_debug, sample_error]" by simp
  note th = Match_buffer_idempotent[OF b' r1 r2 refl, of sample_marshal ?lm]
  from th
  have k: "snd (snd (Match_ord sample_marshal list_order ?lm sample_sink)) = sample_sink"
    and s: "success (fst (Match_ord sample_marshal reversed_order ?lm
              (snd (snd (Match_ord sample_marshal list_order ?lm sample_sink))))) =
            success (fst (Match_ord sample_marshal list_order ?lm sample_sink))"
    and a: "actual (fst (snd (Match_ord sample_marshal reversed_order ?lm sample_sink)))
        = fst (snd (decode_loop [Inr sample_info, Inr sample_debug, Inr sample_error] []))"
    by blast+
  note e = th[THEN conjunct2, THEN conjunct2, THEN conjunct2, THEN conjunct2, THEN conjunct1]
  from e[rule_format, of "[sample_info, sample_debug, sample_error]"]
  have c: "success (fst (Match_ord sample_marshal list_order ?lm sample_sink)) =
              cursor_match (contained sample_marshal) [sample_info, sample_debug, sample_error] 0
                (expected ?lm)"
    by simp
  note th' = Match_buffer_idempotent[OF bc' r1 r2 refl, of sample_marshal ?lm]
  note e' = th'[THEN conjunct2, THEN conjunct2, THEN conjunct2, THEN conjunct2, THEN conjunct2,
      THEN conjunct1]
  from e'[rule_format, of "[sample_info]" "''unexpected EOF''" "[]"]
  have m: "fst (Match_ord sample_marshal reversed_order ?lm ?cut)
      = Inl (DecodeError ''unexpected EOF'')"
    by simp
  from k s a c b r1 r2 t1 t2 bc m show ?thesis
    by (simp add: success_def ContainSequence_def del: cursor_match.simps)
qed

text \<open>
  The orders do bear on the error: on an expectation with a channel and a string that
  no record has, one order returns the serialization error and the other returns false
  without an error; the boolean is false in both.
\<close>

lemma Match_ord_order_matters:
  "fst (Match_ord sample_marshal list_order (ContainSequence [expect_mixed]) sample_sink)
     = Inl (MarshalError ''json: unsupported type: chan int'') \<and>
   fst (Match_ord sample_marshal reversed_order (ContainSequence [expect_mixed]) sample_sink)
     = Inr False"
  by (simp add: Match_ord_def match_records_ord_def list_order_def reversed_order_def
      logEntry_contains_def ContainSequence_def expect_mixed_def sample_defs)

text \<open>
  A reader, in contrast, is read to its end: after a first \<^verbatim>\<open>Match\<close> whose records
  all decoded, a second one searches an empty sequence.
\<close>

lemma Match_reader_consumed:
  assumes "bufferProvider x = None" and "contentsProvider x = None"
    and "reader x = Some (map Inr as)"
  shows "snd (snd (Match marshal lm x)) = x\<lparr>reader := Some []\<rparr> \<and>
         fst (Match marshal lm' (snd (snd (Match marshal lm x)))) =
           match_loop marshal (expected lm') []"
proof -
  have 1: "Match marshal lm x =
      (match_loop marshal (expected lm) as, lm\<lparr>actual := as\<rparr>, x\<lparr>reader := Some []\<rparr>)"
    using assms by (simp add: Match_def match_records_clean)
  have 2: "fst (Match marshal lm' (x\<lparr>reader := Some []\<rparr>)) = match_loop marshal (expected lm') []"
    using assms match_records_clean[of marshal lm' "[]"] by (simp add: Match_def)
  from 1 2 show ?thesis by simp
qed

lemma match_records_no_usage_error:
  "fst (match_records marshal lm rs) \<noteq> Inl (UsageError msg)"
proof (cases "decode_loop rs []")
  case (fields err acc rest)
  show ?thesis
  proof (cases err)
    case None
    with fields match_loop_error[of marshal "expected lm" acc "UsageError msg"]
    show ?thesis by (auto simp: match_records_def)
  next
    case (Some e)
    with fields show ?thesis by (simp add: match_records_def)
  qed
qed

text \<open>
  C4. The newer \<^verbatim>\<open>Match\<close> returns the usage error, whose text ends with gomega's
  rendering of the value, exactly on the values that are neither a
  \<^verbatim>\<open>gbytes.BufferProvider\<close> nor a \<^verbatim>\<open>ContentsProvider\<close> nor an \<^verbatim>\<open>io.Reader\<close>,
  and leaves the matcher and the value as they were; on a value of one of the three
  kinds the result is never a usage error. The older \<^verbatim>\<open>Match\<close> returns its usage
  error exactly on the values that are not an \<^verbatim>\<open>io.Reader\<close>.
\<close>

theorem Match_usage_error:
  "(accepted_records x = None \<longleftrightarrow>
      bufferProvider x = None \<and> contentsProvider x = None \<and> reader x = None) \<and>
   (accepted_records x = None \<longrightarrow>
      Match marshal lm x = (Inl (UsageError (usage_text @ formatted x)), lm, x)) \<and>
   (accepted_records x \<noteq> None \<longrightarrow>
      (\<forall>msg. fst (Match marshal lm x) \<noteq> Inl (UsageError msg))) \<and>
   (reader x = None \<longrightarrow>
      legacy_Match ne lm x = (Inl (UsageError (legacy_usage_text @ formatted x)), lm, x)) \<and>
   (reader x \<noteq> None \<longrightarrow>
      (\<forall>msg. fst (legacy_Match ne lm x) \<noteq> Inl (UsageError msg)))"
proof (intro conjI impI allI)
  show "accepted_records x = None \<longleftrightarrow>
      bufferProvider x = None \<and> contentsProvider x = None \<and> reader x = None"
    by (auto simp: accepted_records_def split: option.splits)
  show "Match marshal lm x = (Inl (UsageError (usage_text @ formatted x)), lm, x)"
    if "accepted_records x = None"
    using that by (auto simp: accepted_records_def Match_def split: option.splits)
  show "fst (Match marshal lm x) \<noteq> Inl (UsageError msg)" if "accepted_records x \<noteq> None" for msg
  proof -
    from that obtain rs where "accepted_records x = Some rs" by auto
    from Match_accepted[OF this, of marshal lm] match_records_no_usage_error[of marshal lm rs msg]
    show ?thesis by simp
  qed
  show "legacy_Match ne lm x = (Inl (UsageError (legacy_usage_text @ formatted x)), lm, x)"
    if "reader x = None"
    using that by (simp add: legacy_Match_def)
  show "fst (legacy_Match ne lm x) \<noteq> Inl (UsageError msg)" if "reader x \<noteq> None" for msg
  proof -
    from that obtain rs where rs: "reader x = Some rs" by auto
    obtain err acc rest where d: "decode_loop rs [] = (err, acc, rest)" by (cases "decode_loop rs []")
    show ?thesis
    proof (cases err)
      case None
      with rs d legacy_match_loop_error[of ne "expected lm" acc "UsageError msg"]
      show ?thesis by (auto simp: legacy_Match_def)
    next
      case (Some e)
      with rs d show ?thesis by (simp add: legacy_Match_def)
    qed
  qed
qed

theorem Match_usage_error_witness:
  "accepted_records sample_number = None \<and>
   Match sample_marshal (ContainSequence [expect_starting]) sample_number =
     (Inl (UsageError (usage_text @ ''<int>: 42'')), ContainSequence [expect_starting],
      sample_number) \<and>
   legacy_Match sample_ne (ContainSequence [expect_starting]) sample_number =
     (Inl (UsageError (legacy_usage_text @ ''<int>: 42'')), ContainSequence [expect_starting],
      sample_number) \<and>
   accepted_records sample_sink \<noteq> None \<and>
   fst (Match sample_marshal (ContainSequence [expect_starting]) sample_sink) = Inr True \<and>
   reader sample_broken \<noteq> None \<and>
   fst (legacy_Match sample_ne (ContainSequence [expect_starting]) sample_broken) =
     Inl (DecodeError ''invalid character 'x' looking for beginning of value'')"
proof -
  have t: "fst (Match sample_marshal (ContainSequence [expect_starting]) sample_sink) = Inr True"
    by (simp add: Match_defs sample_defs)
  have l: "fst (legacy_Match sample_ne (ContainSequence [expect_starting]) sample_broken) =
     Inl (DecodeError ''invalid character 'x' looking for beginning of value'')"
    by (simp add: legacy_Match_def sample_broken_def ContainSequence_def)
  from Match_usage_error[of sample_number sample_marshal "ContainSequence [expect_starting]" sample_ne]
    Match_usage_error[of sample_sink sample_marshal "ContainSequence [expect_starting]" sample_ne]
    Match_usage_error[of sample_broken sample_marshal "ContainSequence [expect_starting]" sample_ne]
    t l
  show ?thesis
    by (simp add: sample_number_def sample_sink_def sample_broken_def)
qed

theorem legacy_Match_counterexample:
  "bufferProvider sample_sink \<noteq> None \<and>
   fst (Match sample_marshal (ContainSequence [expect_starting]) sample_sink) = Inr True \<and>
   fst (legacy_Match sample_ne (ContainSequence [expect_starting]) sample_sink) =
     Inl (UsageError (legacy_usage_text @ ''<*lagertest.TestSink>''))"
  by (simp add: Match_defs legacy_Match_def sample_defs)

section \<open>Session identifiers\<close>

declare decimal.simps [simp del]

lemma digit_inj: "a < 10 \<Longrightarrow> b < 10 \<Longrightarrow> digit a = digit b \<Longrightarrow> a = b"
proof -
  assume a: "a < 10" and b: "b < 10" and e: "digit a = digit b"
  have d: "distinct ''0123456789''" by simp
  from a b have "a < length ''0123456789''" "b < length ''0123456789''" by simp_all
  from nth_eq_iff_index_eq[OF d this] e show ?thesis by (simp add: digit_def)
qed

lemma decimal_nonempty: "decimal n \<noteq> []"
  by (subst decimal.simps) simp

lemma decimal_last: "last (decimal n) = digit (n mod 10)"
  by (subst decimal.simps) simp

lemma decimal_butlast: "butlast (decimal n) = (if n < 10 then [] else decimal (n div 10))"
  by (subst decimal.simps) (simp add: butlast_append)

lemma decimal_inj: "decimal n = decimal m \<Longrightarrow> n = m"
proof (induction n arbitrary: m rule: decimal.induct)
  case (1 n)
  from "1.prems" have l: "digit (n mod 10) = digit (m mod 10)"
    using decimal_last by metis
  have "n mod 10 < 10" "m mod 10 < 10" by simp_all
  from digit_inj[OF this l] have md: "n mod 10 = m mod 10" .
  from "1.prems" have bl: "butlast (decimal n) = butlast (decimal m)" by simp
  show ?case
  proof (cases "n < 10")
    case True
    with bl have "m < 10" using decimal_nonempty[of "m div 10"]
      by (auto simp: decimal_butlast split: if_splits)
    with True md show ?thesis by simp
  next
    case False
    with bl have m10: "\<not> m < 10" using decimal_nonempty[of "n div 10"]
      by (auto simp: decimal_butlast split: if_splits)
    with False bl have "decimal (n div 10) = decimal (m div 10)"
      by (simp add: decimal_butlast)
    from "1.IH"[OF False this] have dv: "n div 10 = m div 10" .
    have "n = n div 10 * 10 + n mod 10" by simp
    also have "\<dots> = m div 10 * 10 + m mod 10" by (simp only: dv md)
    also have "\<dots> = m" by simp
    finally show ?thesis .
  qed
qed

lemma Session_fields:
  "sessionID (fst (Session l t d)) = session_prefix l @ decimal (unat (nextSession l + 1))"
  "nextSession (snd (Session l t d)) = nextSession l + 1"
  "sessionID (snd (Session l t d)) = sessionID l"
  "nextSession (fst (Session l t d)) = 0"
  by (simp_all add: Session_def session_segment_def session_prefix_def Let_def)

lemma Sessions_Cons:
  "Sessions l ((t, d) # calls) =
     (fst (Session l t d) # fst (Sessions (snd (Session l t d)) calls),
      snd (Sessions (snd (Session l t d)) calls))"
  by (simp split: prod.splits)

lemma Sessions_parent:
  "nextSession (snd (Sessions l calls)) = nextSession l + of_nat (length calls) \<and>
   sessionID (snd (Sessions l calls)) = sessionID l"
proof (induction calls arbitrary: l)
  case Nil
  show ?case by simp
next
  case (Cons c calls)
  obtain t d where c: "c = (t, d)" by (cases c)
  show ?case unfolding c Sessions_Cons
    by (simp add: Cons.IH Session_fields add.assoc)
qed

lemma session_prefix_Session: "session_prefix (snd (Session l t d)) = session_prefix l"
  by (simp add: session_prefix_def Session_fields)

lemma Sessions_nth:
  "i < length calls \<Longrightarrow>
   sessionID (fst (Sessions l calls) ! i) =
     session_prefix l @ decimal (unat (nextSession l + of_nat (i + 1)))"
proof (induction calls arbitrary: l i)
  case Nil
  then show ?case by simp
next
  case (Cons c calls)
  obtain t d where c: "c = (t, d)" by (cases c)
  show ?case
  proof (cases i)
    case 0
    then show ?thesis unfolding c Sessions_Cons by (simp add: Session_fields)
  next
    case (Suc i')
    with Cons.prems have "i' < length calls" by simp
    from Cons.IH[OF this, of "snd (Session l t d)"] Suc show ?thesis
      unfolding c Sessions_Cons
      by (simp add: Session_fields session_prefix_Session add.assoc)
  qed
qed

lemma word32_succ: "(w :: 32 word) \<noteq> - 1 \<Longrightarrow> unat (w + 1) = unat w + 1"
proof -
  assume "w \<noteq> - 1"
  then have "1 + w \<noteq> 0" by (simp add: eq_neg_iff_add_eq_0 add.commute)
  from unatSuc[OF this] show ?thesis by (simp add: add.commute)
qed

lemma word32_of_nat_distinct:
  assumes "i < j" "j - i < 2 ^ 32"
  shows "(w :: 32 word) + of_nat (i + 1) \<noteq> w + of_nat (j + 1)"
proof
  assume "w + of_nat (i + 1) = w + of_nat (j + 1)"
  then have a: "(of_nat (i + 1) :: 32 word) = of_nat (j + 1)" by (simp only: add_left_cancel)
  from a[unfolded word_of_nat_eq_iff]
  have "take_bit LENGTH(32) (i + 1) = take_bit LENGTH(32) (j + 1)" .
  then have "(j + 1) mod 2 ^ 32 = (i + 1) mod 2 ^ 32" by (simp add: take_bit_eq_mod)
  moreover from assms have "i + 1 \<le> j + 1" by simp
  ultimately have "(2::nat) ^ 32 dvd (j + 1) - (i + 1)"
    using mod_eq_dvd_iff_nat[of "i + 1" "j + 1" "2 ^ 32"] by simp
  then have "(2::nat) ^ 32 dvd j - i" by simp
  moreover from assms have "0 < j - i" by simp
  ultimately show False using assms(2) nat_dvd_not_less by blast
qed

lemma receiver_after_sessionID: "sessionID (receiver_after l call) = sessionID l"
  by (cases call) (simp_all add: RegisterSink_def Session_fields)

lemma receiver_after_calls: "sessionID (foldl receiver_after l calls) = sessionID l"
  by (induction calls arbitrary: l) (simp_all add: receiver_after_sessionID)

text \<open>
  C9. \<^verbatim>\<open>Session\<close> adds one to the parent's counter modulo \<open>2 ^ 32\<close> and takes the
  sum as the new segment: one more than the counter, hence positive, unless the
  counter was \<open>2 ^ 32 - 1\<close>. The child's identifier is the parent's identifier, a dot
  and the segment in decimal when the parent's identifier is not empty, and the
  segment alone otherwise; no later call on the child changes it. Two derivations from
  one parent with fewer than \<open>2 ^ 32\<close> derivations from the first to the second get
  distinct identifiers.
\<close>

theorem Session_identifiers:
  "sessionID (fst (Session l t d)) =
     (if sessionID l \<noteq> [] then sessionID l @ ''.'' @ decimal (unat (nextSession l + 1))
      else decimal (unat (nextSession l + 1))) \<and>
   nextSession (snd (Session l t d)) = nextSession l + 1 \<and>
   (nextSession l \<noteq> - 1 \<longrightarrow> unat (nextSession l + 1) = unat (nextSession l) + 1) \<and>
   sessionID (foldl receiver_after (fst (Session l t d)) later) = sessionID (fst (Session l t d)) \<and>
   (\<forall>i j. i < j \<and> j < length calls \<and> j - i < 2 ^ 32 \<longrightarrow>
      sessionID (fst (Sessions l calls) ! i) \<noteq> sessionID (fst (Sessions l calls) ! j))"
proof (intro conjI allI impI)
  show "sessionID (fst (Session l t d)) =
     (if sessionID l \<noteq> [] then sessionID l @ ''.'' @ decimal (unat (nextSession l + 1))
      else decimal (unat (nextSession l + 1)))"
    by (simp add: Session_fields session_prefix_def)
  show "nextSession (snd (Session l t d)) = nextSession l + 1"
    by (rule Session_fields)
  show "unat (nextSession l + 1) = unat (nextSession l) + 1" if "nextSession l \<noteq> - 1"
    using that by (rule word32_succ)
  show "sessionID (foldl receiver_after (fst (Session l t d)) later) = sessionID (fst (Session l t d))"
    by (rule receiver_after_calls)
  show "sessionID (fst (Sessions l calls) ! i) \<noteq> sessionID (fst (Sessions l calls) ! j)"
    if h: "i < j \<and> j < length calls \<and> j - i < 2 ^ 32" for i j
  proof
    assume e: "sessionID (fst (Sessions l calls) ! i) = sessionID (fst (Sessions l calls) ! j)"
    from h have "i < length calls" "j < length calls" by simp_all
    from e Sessions_nth[OF this(1), of l] Sessions_nth[OF this(2), of l]
    have "decimal (unat (nextSession l + of_nat (i + 1)))
        = decimal (unat (nextSession l + of_nat (j + 1)))" by simp
    then have "unat (nextSession l + of_nat (i + 1)) = unat (nextSession l + of_nat (j + 1))"
      by (rule decimal_inj)
    then have "nextSession l + of_nat (i + 1) = nextSession l + of_nat (j + 1)"
      by (simp only: word_unat_eq_iff)
    with word32_of_nat_distinct[of i j "nextSession l"] h show False by simp
  qed
qed

lemma dec1: "decimal 1 = ''1''" "decimal 0 = ''0''" "decimal 2 = ''2''" "decimal 4294967295 = ''4294967295''"
  by (simp_all add: decimal.simps digit_def)

theorem Session_identifiers_witness:
  "nextSession (NewLogger ''svc'' :: (sample, nat) logger) \<noteq> - 1 \<and>
   sessionID (fst (Session (NewLogger ''svc'' :: (sample, nat) logger) ''a'' [])) = ''1'' \<and>
   unat (nextSession (NewLogger ''svc'' :: (sample, nat) logger) + 1) = 1 \<and>
   sessionID (fst (Session (fst (Session (NewLogger ''svc'' :: (sample, nat) logger) ''a'' []))
                 ''b'' [])) = ''1.1'' \<and>
   (0::nat) < 1 \<and> 1 < length [(''a'', []), (''b'', [])] \<and> (1::nat) - 0 < 2 ^ 32 \<and>
   sessionID (fst (Sessions (NewLogger ''svc'' :: (sample, nat) logger)
      [(''a'', []), (''b'', [])]) ! 0) \<noteq>
   sessionID (fst (Sessions (NewLogger ''svc'' :: (sample, nat) logger)
      [(''a'', []), (''b'', [])]) ! 1)"
proof -
  let ?l = "NewLogger ''svc'' :: (sample, nat) logger"
  have n: "nextSession ?l \<noteq> - 1" by (simp add: NewLogger_def)
  have c: "(0::nat) < 1 \<and> 1 < length [(''a'', []), (''b'', [])] \<and> (1::nat) - 0 < 2 ^ 32"
    by simp
  from Session_identifiers[of ?l "''a''" "[]" "[]" "[(''a'', []), (''b'', [])]"] n c
  have "sessionID (fst (Session ?l ''a'' [])) = decimal (unat (nextSession ?l + 1))"
    "unat (nextSession ?l + 1) = unat (nextSession ?l) + 1"
    "sessionID (fst (Sessions ?l [(''a'', []), (''b'', [])]) ! 0) \<noteq>
     sessionID (fst (Sessions ?l [(''a'', []), (''b'', [])]) ! 1)"
    by (simp_all add: NewLogger_def)
  moreover have "sessionID (fst (Session (fst (Session ?l ''a'' [])) ''b'' [])) = ''1.1''"
    by (simp add: Session_def session_segment_def NewLogger_def decimal.simps digit_def)
  ultimately show ?thesis using n c
    by (simp add: NewLogger_def decimal.simps digit_def)
qed

theorem Session_wraps_counterexample:
  "sessionID (fst (Sessions (NewLogger ''svc'' :: (sample, nat) logger)
      (replicate (2 ^ 32 + 1) (''a'', []))) ! 0) = ''1'' \<and>
   sessionID (fst (Sessions (NewLogger ''svc'' :: (sample, nat) logger)
      (replicate (2 ^ 32 + 1) (''a'', []))) ! (2 ^ 32)) = ''1'' \<and>
   sessionID (fst (Sessions (NewLogger ''svc'' :: (sample, nat) logger)
      (replicate (2 ^ 32 + 1) (''a'', []))) ! (2 ^ 32 - 1)) = ''0''"
proof -
  let ?l = "NewLogger ''svc'' :: (sample, nat) logger"
  let ?calls = "replicate (2 ^ 32 + 1) (''a'', []) :: (string \<times> (string \<times> sample govalue) list list) list"
  have p: "session_prefix ?l = []" "nextSession ?l = 0"
    by (simp_all add: session_prefix_def NewLogger_def)
  have i: "0 < length ?calls" "2 ^ 32 < length ?calls" "2 ^ 32 - 1 < length ?calls"
    by simp_all
  have u: "unat (of_nat 1 :: 32 word) = 1" "unat (of_nat (2 ^ 32 + 1) :: 32 word) = 1"
    "unat (of_nat (2 ^ 32 - 1 + 1) :: 32 word) = 0"
    by (simp_all add: unat_of_nat)
  show ?thesis
    unfolding Sessions_nth[OF i(1)] Sessions_nth[OF i(2)] Sessions_nth[OF i(3)] p
    by (simp only: u add_0 append_Nil dec1 simp_thms)
qed

end
